theory Spec2Isabelle
  imports Main
begin

section \<open>The in-memory job queue of app/lib/utils/queue.js\<close>

text \<open>
  The class \<open>JobQueue\<close> keeps four arrays of job objects (\<open>jobs\<close>, the waiting array,
  \<open>processing\<close>, \<open>completed\<close>, \<open>failed\<close>) and mutates the job objects in place. A job
  object is shared between the arrays, the closure of a pending \<open>setTimeout\<close>, the suspended
  body of \<open>processJob\<close> and the caller of \<open>add\<close>, so the model keeps an explicit store:
  a job object is a reference (a natural number, the allocation index, which is also the
  order of the \<open>add\<close> calls) and \<open>objs\<close> maps references to records.

  Numbers are integers (priorities and delays) or naturals (attempt counters); a
  \<open>Date\<close> is its epoch value in milliseconds, read once per event and passed as \<open>now\<close>;
  the payload, the handler's result and the identifiers are strings.
\<close>

subsection \<open>Job objects\<close>

record job =
  job_id :: string
  job_type :: string
  job_data :: string
  status :: string
  priority :: int
  attempts :: nat
  maxAttempts :: nat
  delay :: int
  createdAt :: int
  startedAt :: "int option"
  completedAt :: "int option"
  failedAt :: "int option"
  result :: "string option"
  error :: "string option"
  errorStack :: "string option"

text \<open>
  The \<open>options\<close> argument of \<open>add\<close> with numbers and strings as values: a key that is
  absent is \<open>None\<close>. The keys are the fields that the object literal of \<open>add\<close> sets
  before it spreads \<open>options\<close>.
\<close>

record options =
  opt_id :: "string option"
  opt_type :: "string option"
  opt_data :: "string option"
  opt_status :: "string option"
  opt_priority :: "int option"
  opt_attempts :: "nat option"
  opt_maxAttempts :: "nat option"
  opt_delay :: "int option"
  opt_createdAt :: "int option"

text \<open>\<open>options.k || d\<close> on a number: an absent key or the value 0 gives the default.\<close>

definition or_default :: "('a::zero) option \<Rightarrow> 'a \<Rightarrow> 'a" where
  "or_default v d = (case v of None \<Rightarrow> d | Some n \<Rightarrow> if n \<noteq> 0 then n else d)"

text \<open>A spread key replaces the field written before it.\<close>

definition spread_key :: "'a option \<Rightarrow> 'a \<Rightarrow> 'a" where
  "spread_key v old = (case v of None \<Rightarrow> old | Some x \<Rightarrow> x)"

text \<open>Lines 28 to 37 of \<open>add\<close>: the fields written before the spread.\<close>

definition job_defaults :: "string \<Rightarrow> string \<Rightarrow> string \<Rightarrow> options \<Rightarrow> int \<Rightarrow> job" where
  "job_defaults gid jobType d opts now =
     \<lparr> job_id = gid, job_type = jobType, job_data = d, status = ''waiting'',
       priority = or_default (opt_priority opts) 0,
       attempts = 0,
       maxAttempts = or_default (opt_maxAttempts opts) 3,
       delay = or_default (opt_delay opts) 0,
       createdAt = now,
       startedAt = None, completedAt = None, failedAt = None,
       result = None, error = None, errorStack = None \<rparr>"

text \<open>Line 38, \<open>...options\<close>.\<close>

definition spread_options :: "options \<Rightarrow> job \<Rightarrow> job" where
  "spread_options opts j =
     j\<lparr> job_id := spread_key (opt_id opts) (job_id j),
        job_type := spread_key (opt_type opts) (job_type j),
        job_data := spread_key (opt_data opts) (job_data j),
        status := spread_key (opt_status opts) (status j),
        priority := spread_key (opt_priority opts) (priority j),
        attempts := spread_key (opt_attempts opts) (attempts j),
        maxAttempts := spread_key (opt_maxAttempts opts) (maxAttempts j),
        delay := spread_key (opt_delay opts) (delay j),
        createdAt := spread_key (opt_createdAt opts) (createdAt j) \<rparr>"

definition new_job :: "string \<Rightarrow> string \<Rightarrow> string \<Rightarrow> options \<Rightarrow> int \<Rightarrow> job" where
  "new_job gid jobType d opts now = spread_options opts (job_defaults gid jobType d opts now)"

text \<open>The options \<open>{}\<close>.\<close>

definition no_options :: options where
  "no_options = \<lparr> opt_id = None, opt_type = None, opt_data = None, opt_status = None,
     opt_priority = None, opt_attempts = None, opt_maxAttempts = None, opt_delay = None,
     opt_createdAt = None \<rparr>"

subsection \<open>The object literal on arbitrary option values\<close>

text \<open>
  The records above hold numbers and strings. A caller may also pass a key whose value is
  \<open>undefined\<close>, \<open>null\<close> or \<open>NaN\<close>; \<open>||\<close> replaces such a value by the default, and the
  spread writes it into the job all the same. \<open>literal\<close> is the object literal of lines
  28 to 39 on such values: a field of the job is a value \<open>Val v\<close> or one of the three, and
  a key of \<open>options\<close> is absent (\<open>None\<close>) or present with such a value. Each field is the
  value written before the spread, replaced by the key of \<open>options\<close> when the key is
  present. A number is truthy when it is neither 0 nor \<open>NaN\<close>; \<open>undefined\<close> and \<open>null\<close>
  are falsy.
\<close>

datatype 'a jsval = Val 'a | Undefined | Null | NaN









subsection \<open>The queue\<close>

text \<open>
  A caught value other than \<open>null\<close> and \<open>undefined\<close>: what \<open>error.message\<close> and
  \<open>error.stack\<close> read, \<open>undefined\<close> (\<open>None\<close>) for a value without the property. An
  \<open>Error\<close> has both.
\<close>

record jserror =
  message :: "string option"
  stack :: "string option"

text \<open>
  The fields of the class, the store, and the two places where the runtime holds a job
  outside the arrays: \<open>timers\<close> are the pending \<open>setTimeout\<close> callbacks of
  \<open>startProcessing\<close> (the captured job and the delay passed to \<open>setTimeout\<close>), and
  \<open>awaiting\<close> are the calls of \<open>processJob\<close> suspended at \<open>await handler(job.data, job)\<close>.
  \<open>unhandled\<close> are the calls of \<open>processJob\<close> that ended by throwing out of the \<open>catch\<close>
  block: the promise of such a call is rejected and nothing handles the rejection.
  A handler is an asynchronous function: calling it returns a promise, and the promise
  settles in a later event. The queue only tests whether the map has a handler for a type,
  so a handler is represented by a number naming the registered function.
  The concurrency limit is a natural number.
\<close>

record queue =
  name :: string
  concurrency :: nat
  jobs :: "nat list"
  processing :: "nat list"
  completed :: "nat list"
  failed :: "nat list"
  isProcessing :: bool
  handlers :: "string \<rightharpoonup> nat"
  objs :: "nat \<Rightarrow> job"
  nalloc :: nat
  timers :: "(nat \<times> int) list"
  awaiting :: "nat list"
  unhandled :: "nat list"

text \<open>A reference that no \<open>add\<close> has allocated yet reads as this record.\<close>

definition no_job :: job where
  "no_job = \<lparr> job_id = [], job_type = [], job_data = [], status = [], priority = 0,
     attempts = 0, maxAttempts = 0, delay = 0, createdAt = 0, startedAt = None,
     completedAt = None, failedAt = None, result = None, error = None, errorStack = None \<rparr>"

text \<open>The constructor.\<close>

definition new_queue :: "string \<Rightarrow> nat \<Rightarrow> queue" where
  "new_queue n c =
     \<lparr> name = n, concurrency = c, jobs = [], processing = [], completed = [], failed = [],
       isProcessing = False, handlers = Map.empty, objs = (\<lambda>_. no_job), nalloc = 0,
       timers = [], awaiting = [], unhandled = [] \<rparr>"

text \<open>\<open>process(jobType, handler)\<close>.\<close>

definition process :: "string \<Rightarrow> nat \<Rightarrow> queue \<Rightarrow> queue" where
  "process jobType h q = q\<lparr> handlers := (handlers q)(jobType \<mapsto> h) \<rparr>"

text \<open>
  \<open>this.jobs.sort((a, b) => b.priority - a.priority)\<close>: the sort of ECMAScript 2019 is
  stable, and so is the insertion sort \<open>sort_key\<close>; descending priority is ascending
  negated priority.
\<close>

definition sort_jobs :: "(nat \<Rightarrow> job) \<Rightarrow> nat list \<Rightarrow> nat list" where
  "sort_jobs os rs = sort_key (\<lambda>r. - priority (os r)) rs"

text \<open>\<open>this.processing.filter(j => j.id !== job.id)\<close>.\<close>

definition without_id :: "(nat \<Rightarrow> job) \<Rightarrow> string \<Rightarrow> nat list \<Rightarrow> nat list" where
  "without_id os i rs = filter (\<lambda>r. job_id (os r) \<noteq> i) rs"

text \<open>
  The \<open>catch\<close> block of \<open>processJob\<close> (lines 115 to 157) for the job \<open>r\<close> and a caught
  value that is neither \<open>null\<close> nor \<open>undefined\<close>, without the call of \<open>startProcessing\<close>
  that follows it.
\<close>

definition catch_block :: "nat \<Rightarrow> jserror \<Rightarrow> int \<Rightarrow> queue \<Rightarrow> queue" where
  "catch_block r e now q =
     (let j = (objs q r)\<lparr> attempts := attempts (objs q r) + 1,
                         error := message e, errorStack := stack e \<rparr>
      in if attempts j \<ge> maxAttempts j
         then q\<lparr> objs := (objs q)(r := j\<lparr> status := ''failed'', failedAt := Some now \<rparr>),
                 processing := without_id (objs q) (job_id j) (processing q),
                 failed := failed q @ [r] \<rparr>
         else q\<lparr> objs := (objs q)(r := j\<lparr> delay := 2 ^ attempts j * 1000,
                                           status := ''waiting'' \<rparr>),
                 processing := without_id (objs q) (job_id j) (processing q),
                 jobs := r # jobs q \<rparr>)"

text \<open>Lines 101 to 106: the handler's promise was fulfilled with \<open>res\<close>.\<close>

definition success_block :: "nat \<Rightarrow> string \<Rightarrow> int \<Rightarrow> queue \<Rightarrow> queue" where
  "success_block r res now q =
     q\<lparr> objs := (objs q)(r := (objs q r)\<lparr> status := ''completed'', result := Some res,
                                        completedAt := Some now \<rparr>),
        processing := without_id (objs q) (job_id (objs q r)) (processing q),
        completed := completed q @ [r] \<rparr>"

text \<open>The error of line 96.\<close>

definition no_handler_error :: "string \<Rightarrow> jserror" where
  "no_handler_error t =
     \<lparr> message = Some (''No handler registered for job type: '' @ t),
       stack = Some (''Error: No handler registered for job type: '' @ t) \<rparr>"

text \<open>
  \<open>processJob(job)\<close> up to its first suspension. Without a handler the \<open>throw\<close> of line
  96 is caught by the \<open>catch\<close> of line 115 in the same synchronous run; with a handler the
  body suspends at the \<open>await\<close> of line 99. \<open>processJob\<close> is only called from the loop of
  \<open>startProcessing\<close>, where \<open>isProcessing\<close> is set, so in the synchronous case the call of
  \<open>startProcessing\<close> at line 160 returns at line 57 and changes nothing.
\<close>

definition processJob :: "nat \<Rightarrow> int \<Rightarrow> queue \<Rightarrow> queue" where
  "processJob r now q =
     (let q1 = q\<lparr> processing := processing q @ [r],
                  objs := (objs q)(r := (objs q r)\<lparr> status := ''processing'',
                                                     startedAt := Some now \<rparr>) \<rparr>
      in case handlers q1 (job_type (objs q1 r)) of
           None \<Rightarrow> catch_block r (no_handler_error (job_type (objs q1 r))) now q1
         | Some h \<Rightarrow> q1\<lparr> awaiting := awaiting q1 @ [r] \<rparr>)"

text \<open>
  The \<open>while\<close> loop of \<open>startProcessing\<close> (lines 61 to 75). A job with a positive delay
  leaves the waiting array and is held by the timer alone.
\<close>

function startProcessing_loop :: "int \<Rightarrow> queue \<Rightarrow> queue" where
  "startProcessing_loop now q =
     (if jobs q \<noteq> [] \<and> length (processing q) < concurrency q
      then if delay (objs q (hd (jobs q))) > 0
           then startProcessing_loop now
                  (q\<lparr> jobs := tl (jobs q),
                      timers := timers q @ [(hd (jobs q), delay (objs q (hd (jobs q))))] \<rparr>)
           else startProcessing_loop now (processJob (hd (jobs q)) now (q\<lparr> jobs := tl (jobs q) \<rparr>))
      else q)"
  by pat_completeness auto
termination startProcessing_loop
proof (relation "measure (\<lambda>(now, q). sum_list (map (\<lambda>r. if delay (objs q r) > 0 then 1 else (2::nat)) (jobs q)))", goal_cases)
  case 1
  then show ?case by simp
next
  case (2 now q)
  then show ?case by (cases "jobs q") auto
next
  case (3 now q)
  then obtain r rest where j: "jobs q = r # rest" by (cases "jobs q") auto
  from 3 j have d: "delay (objs q r) \<le> 0" by simp
  let ?q' = "processJob r now (q\<lparr>jobs := rest\<rparr>)"
  let ?w = "\<lambda>f xs. sum_list (map (\<lambda>r. if delay (f r) > 0 then 1 else (2::nat)) xs)"
  have A: "jobs ?q' = rest \<or> (jobs ?q' = r # rest \<and> delay (objs ?q' r) > 0)"
    by (auto simp: processJob_def catch_block_def Let_def split: option.splits)
  have B: "delay (objs q x) > 0 \<longrightarrow> delay (objs ?q' x) > 0" for x
    by (auto simp: processJob_def catch_block_def Let_def split: option.splits)
  have le: "?w (objs ?q') xs \<le> ?w (objs q) xs" for xs
    by (induction xs) (use B in \<open>auto simp: add_le_mono\<close>)
  from A have "?w (objs ?q') (jobs ?q') < ?w (objs q) (jobs q)"
  proof
    assume "jobs ?q' = rest"
    with le[of rest] j d show ?thesis by simp
  next
    assume "jobs ?q' = r # rest \<and> delay (objs ?q' r) > 0"
    with le[of rest] j d show ?thesis by simp
  qed
  with j show ?case by simp
qed

text \<open>
  \<open>startProcessing()\<close>: the function has no \<open>await\<close>, so the whole loop runs before the
  call returns.
\<close>

definition startProcessing :: "int \<Rightarrow> queue \<Rightarrow> queue" where
  "startProcessing now q =
     (if isProcessing q then q
      else (startProcessing_loop now (q\<lparr> isProcessing := True \<rparr>))\<lparr> isProcessing := False \<rparr>)"

text \<open>
  Lines 28 to 42 of \<open>add\<close>: the job object is built and pushed and the waiting array is
  sorted. \<open>gid\<close> is the value of \<open>generateJobId()\<close> and \<open>now\<close> the clock.
\<close>

definition enqueue :: "string \<Rightarrow> string \<Rightarrow> options \<Rightarrow> string \<Rightarrow> int \<Rightarrow> queue \<Rightarrow> queue" where
  "enqueue jobType d opts gid now q =
     (let r = nalloc q; os = (objs q)(r := new_job gid jobType d opts now)
      in q\<lparr> objs := os, nalloc := Suc r, jobs := sort_jobs os (jobs q @ [r]) \<rparr>)"

text \<open>\<open>add(jobType, data, options)\<close> returns the job object and leaves the queue changed.\<close>

definition add :: "string \<Rightarrow> string \<Rightarrow> options \<Rightarrow> string \<Rightarrow> int \<Rightarrow> queue \<Rightarrow> nat \<times> queue" where
  "add jobType d opts gid now q = (nalloc q, startProcessing now (enqueue jobType d opts gid now q))"

text \<open>The callback of line 66 for the timer \<open>(r, d)\<close>.\<close>

definition timer_fired :: "nat \<Rightarrow> int \<Rightarrow> int \<Rightarrow> queue \<Rightarrow> queue" where
  "timer_fired r d now q =
     startProcessing now
       (q\<lparr> timers := remove1 (r, d) (timers q),
           objs := (objs q)(r := (objs q r)\<lparr> delay := 0 \<rparr>),
           jobs := r # jobs q \<rparr>)"

text \<open>The rest of \<open>processJob\<close> once the handler's promise is fulfilled, and once it is rejected.\<close>

definition handler_resolved :: "nat \<Rightarrow> string \<Rightarrow> int \<Rightarrow> queue \<Rightarrow> queue" where
  "handler_resolved r res now q =
     startProcessing now (success_block r res now (q\<lparr> awaiting := remove1 r (awaiting q) \<rparr>))"

definition handler_rejected :: "nat \<Rightarrow> jserror \<Rightarrow> int \<Rightarrow> queue \<Rightarrow> queue" where
  "handler_rejected r e now q =
     startProcessing now (catch_block r e now (q\<lparr> awaiting := remove1 r (awaiting q) \<rparr>))"

text \<open>
  The handler's promise is rejected with \<open>null\<close> or \<open>undefined\<close>: line 116 increments
  \<open>attempts\<close> and line 117 reads \<open>error.message\<close>, which throws a \<open>TypeError\<close> inside the
  \<open>catch\<close> block. The call of \<open>processJob\<close> ends there: the job keeps its status and its
  place in \<open>processing\<close>, line 160 is not reached, and the promise of \<open>processJob\<close>, which
  \<open>startProcessing\<close> dropped, is rejected.
\<close>

definition handler_rejected_nullish :: "nat \<Rightarrow> queue \<Rightarrow> queue" where
  "handler_rejected_nullish r q =
     q\<lparr> awaiting := remove1 r (awaiting q),
        objs := (objs q)(r := (objs q r)\<lparr> attempts := attempts (objs q r) + 1 \<rparr>),
        unhandled := unhandled q @ [r] \<rparr>"

text \<open>\<open>getStats()\<close>.\<close>

record stats =
  stat_name :: string
  stat_waiting :: nat
  stat_processing :: nat
  stat_completed :: nat
  stat_failed :: nat
  stat_concurrency :: nat

definition getStats :: "queue \<Rightarrow> stats" where
  "getStats q =
     \<lparr> stat_name = name q, stat_waiting = length (jobs q),
       stat_processing = length (processing q), stat_completed = length (completed q),
       stat_failed = length (failed q), stat_concurrency = concurrency q \<rparr>"

text \<open>\<open>getJob(jobId)\<close>: the first job object of the four arrays with that id, or \<open>undefined\<close>.\<close>

definition getJob :: "queue \<Rightarrow> string \<Rightarrow> nat option" where
  "getJob q i =
     find (\<lambda>r. job_id (objs q r) = i) (jobs q @ processing q @ completed q @ failed q)"

text \<open>
  \<open>new Date(v)\<close>: a time value beyond 8.64e15 ms on either side of the epoch gives an
  \<open>Invalid Date\<close> (\<open>None\<close>), whose number is \<open>NaN\<close>. Comparing a date field with the
  cutoff: when the field was never set (\<open>undefined\<close>) or the cutoff is invalid, both \<open><\<close>
  and \<open>>=\<close> are false.
\<close>

definition new_Date :: "int \<Rightarrow> int option" where
  "new_Date v = (if - 8640000000000000 \<le> v \<and> v \<le> 8640000000000000 then Some v else None)"

definition date_lt :: "int option \<Rightarrow> int option \<Rightarrow> bool" where
  "date_lt t c = (case t of None \<Rightarrow> False
                   | Some x \<Rightarrow> (case c of None \<Rightarrow> False | Some y \<Rightarrow> x < y))"

definition date_ge :: "int option \<Rightarrow> int option \<Rightarrow> bool" where
  "date_ge t c = (case t of None \<Rightarrow> False
                   | Some x \<Rightarrow> (case c of None \<Rightarrow> False | Some y \<Rightarrow> x \<ge> y))"

text \<open>\<open>cleanup(maxAge)\<close> at the clock value \<open>now\<close>: the count returned and the queue left.\<close>

definition cleanup :: "int \<Rightarrow> int \<Rightarrow> queue \<Rightarrow> nat \<times> queue" where
  "cleanup maxAge now q =
     (let cutoff = new_Date (now - maxAge);
          oldCompleted = filter (\<lambda>r. date_lt (completedAt (objs q r)) cutoff) (completed q);
          oldFailed = filter (\<lambda>r. date_lt (failedAt (objs q r)) cutoff) (failed q)
      in (length oldCompleted + length oldFailed,
          q\<lparr> completed := filter (\<lambda>r. date_ge (completedAt (objs q r)) cutoff) (completed q),
              failed := filter (\<lambda>r. date_ge (failedAt (objs q r)) cutoff) (failed q) \<rparr>))"

subsection \<open>Events and reachable states\<close>

text \<open>
  What happens to a queue, one synchronous run at a time: a call of \<open>process\<close>, \<open>add\<close>
  or \<open>cleanup\<close>, a timer of \<open>startProcessing\<close> firing, and a handler's promise settling:
  fulfilled, rejected with a value (\<open>Rejected\<close>), or rejected with \<open>null\<close> or \<open>undefined\<close>
  (\<open>RejectedNullish\<close>). A timer fires only if it is pending and a promise settles only for
  a suspended \<open>processJob\<close>; the order of the events is otherwise free.
\<close>

datatype event =
    Process string nat
  | Add string string options string int
  | TimerFired nat int int
  | Resolved nat string int
  | Rejected nat jserror int
  | RejectedNullish nat
  | Cleanup int int

fun step :: "event \<Rightarrow> queue \<Rightarrow> queue option" where
  "step (Process t h) q = Some (process t h q)"
| "step (Add t d opts gid now) q = Some (snd (add t d opts gid now q))"
| "step (TimerFired r d now) q =
     (if (r, d) \<in> set (timers q) then Some (timer_fired r d now q) else None)"
| "step (Resolved r res now) q =
     (if r \<in> set (awaiting q) then Some (handler_resolved r res now q) else None)"
| "step (Rejected r e now) q =
     (if r \<in> set (awaiting q) then Some (handler_rejected r e now q) else None)"
| "step (RejectedNullish r) q =
     (if r \<in> set (awaiting q) then Some (handler_rejected_nullish r q) else None)"
| "step (Cleanup maxAge now) q = Some (snd (cleanup maxAge now q))"

text \<open>The states a new queue reaches by events that satisfy \<open>ok\<close>.\<close>

inductive reach :: "(queue \<Rightarrow> event \<Rightarrow> bool) \<Rightarrow> queue \<Rightarrow> bool" for ok where
  reach_new: "reach ok (new_queue n c)"
| reach_step: "reach ok q \<Longrightarrow> ok q e \<Longrightarrow> step e q = Some q' \<Longrightarrow> reach ok q'"

fun run :: "event list \<Rightarrow> queue \<Rightarrow> queue option" where
  "run [] q = Some q"
| "run (e # es) q = (case step e q of None \<Rightarrow> None | Some q' \<Rightarrow> run es q')"

text \<open>
  The four queues of lines 215 to 218. A method of \<open>JobQueue\<close> reads and writes the
  fields of its own instance only, so an event of the queue \<open>a\<close> is a step of that queue.
\<close>

datatype qname = Story | Image | Audio | Email



text \<open>No restriction on the events.\<close>

definition any_event :: "queue \<Rightarrow> event \<Rightarrow> bool" where
  "any_event q e = True"

text \<open>
  The ids in use, and the calls of \<open>add\<close> as the spec documents them: the options carry
  at most \<open>priority\<close>, \<open>maxAttempts\<close> and \<open>delay\<close>, and \<open>generateJobId\<close> returns an id that
  no job object of the queue has.
\<close>

definition used_ids :: "queue \<Rightarrow> string list" where
  "used_ids q = map (\<lambda>r. job_id (objs q r)) [0..<nalloc q]"

definition documented_options :: "options \<Rightarrow> bool" where
  "documented_options opts =
     (opt_id opts = None \<and> opt_type opts = None \<and> opt_data opts = None \<and>
      opt_status opts = None \<and> opt_attempts opts = None \<and> opt_createdAt opts = None)"

fun documented :: "queue \<Rightarrow> event \<Rightarrow> bool" where
  "documented q (Add t d opts gid now) = (documented_options opts \<and> gid \<notin> set (used_ids q))"
| "documented q e = True"

subsection \<open>Invariants\<close>

text \<open>
  \<open>refs_ok\<close>: a job object is held in at most one of the waiting array, a timer, a
  suspended \<open>processJob\<close>, a \<open>processJob\<close> that threw, \<open>completed\<close> and \<open>failed\<close>, every
  job of \<open>processing\<close> has its \<open>processJob\<close> suspended or thrown, and every held
  reference was allocated by \<open>add\<close>.
  \<open>marks_ok\<close>: what the fields of a held job say. \<open>bounded\<close>: the concurrency limit.
  \<open>quiet\<close>: between two events the scheduler is not running and has nothing it could start.
\<close>

definition refs_ok :: "queue \<Rightarrow> bool" where
  "refs_ok q \<longleftrightarrow>
     distinct (jobs q @ map fst (timers q) @ awaiting q @ unhandled q @ completed q @ failed q) \<and>
     distinct (processing q) \<and> set (processing q) \<subseteq> set (awaiting q) \<union> set (unhandled q) \<and>
     (\<forall>r \<in> set (jobs q @ map fst (timers q) @ awaiting q @ unhandled q @ completed q @ failed q).
        r < nalloc q)"

definition marks_ok :: "queue \<Rightarrow> bool" where
  "marks_ok q \<longleftrightarrow>
     (\<forall>r \<in> set (completed q). status (objs q r) = ''completed'' \<and> completedAt (objs q r) \<noteq> None) \<and>
     (\<forall>r \<in> set (failed q). status (objs q r) = ''failed'' \<and> failedAt (objs q r) \<noteq> None) \<and>
     (\<forall>r \<in> set (awaiting q). status (objs q r) = ''processing'') \<and>
     (\<forall>r \<in> set (unhandled q). status (objs q r) = ''processing'') \<and>
     (\<forall>t \<in> set (timers q). delay (objs q (fst t)) = snd t \<and> 0 < snd t)"

definition bounded :: "queue \<Rightarrow> bool" where
  "bounded q \<longleftrightarrow> length (processing q) \<le> concurrency q"

definition inv :: "queue \<Rightarrow> bool" where
  "inv q \<longleftrightarrow> refs_ok q \<and> marks_ok q \<and> bounded q"

definition quiet :: "queue \<Rightarrow> bool" where
  "quiet q \<longleftrightarrow> \<not> isProcessing q \<and> (jobs q = [] \<or> concurrency q \<le> length (processing q))"

text \<open>
  What the status of a job can be after a synchronous run of the scheduler that found it
  \<open>waiting\<close>: the scheduler sets \<open>processing\<close>, and the \<open>catch\<close> block sets \<open>failed\<close> or
  \<open>waiting\<close>, in the same run only for a job whose type has no handler.
\<close>

definition sync_status :: "queue \<Rightarrow> nat \<Rightarrow> bool" where
  "sync_status q r \<longleftrightarrow>
     (status (objs q r) = ''waiting'' \<or> status (objs q r) = ''processing'' \<or>
      (status (objs q r) = ''failed'' \<and> handlers q (job_type (objs q r)) = None))"

text \<open>
  For runs with documented calls of \<open>add\<close>: the ids are unique, so the filter by id
  removes one job and \<open>processing\<close> holds exactly the jobs whose \<open>processJob\<close> is
  suspended or has thrown (\<open>ids_ok\<close>); a job in the waiting array or in a timer has status
  \<open>waiting\<close>, and a job that nothing holds is \<open>completed\<close> or \<open>failed\<close> (\<open>waiting_ok\<close>);
  \<open>attempts\<close> stays below \<open>maxAttempts\<close> until the job fails for good, unless its
  \<open>processJob\<close> has thrown (\<open>attempts_ok\<close>, job by job \<open>attempts_fit\<close>).
\<close>

definition ids_ok :: "queue \<Rightarrow> bool" where
  "ids_ok q \<longleftrightarrow>
     distinct (used_ids q) \<and> set (awaiting q) \<union> set (unhandled q) \<subseteq> set (processing q)"

definition waiting_ok :: "queue \<Rightarrow> bool" where
  "waiting_ok q \<longleftrightarrow>
     (\<forall>r \<in> set (jobs q). status (objs q r) = ''waiting'') \<and>
     (\<forall>t \<in> set (timers q). status (objs q (fst t)) = ''waiting'') \<and>
     (\<forall>r < nalloc q. r \<in> set (jobs q) \<or> r \<in> fst ` set (timers q) \<or> r \<in> set (awaiting q) \<or>
        r \<in> set (unhandled q) \<or>
        status (objs q r) = ''completed'' \<or> status (objs q r) = ''failed'')"

definition attempts_fit :: "job \<Rightarrow> bool" where
  "attempts_fit j \<longleftrightarrow>
     (if status j = ''failed''
      then attempts j = max 1 (maxAttempts j) \<and> failedAt j \<noteq> None
      else attempts j = 0 \<or> attempts j < maxAttempts j)"

definition attempts_ok :: "queue \<Rightarrow> bool" where
  "attempts_ok q \<longleftrightarrow> (\<forall>r < nalloc q. r \<in> set (unhandled q) \<or> attempts_fit (objs q r))"

definition doc_inv :: "queue \<Rightarrow> bool" where
  "doc_inv q \<longleftrightarrow> inv q \<and> ids_ok q \<and> waiting_ok q \<and> attempts_ok q"

text \<open>
  Every event of a run is a documented one.
\<close>

fun documented_run :: "event list \<Rightarrow> queue \<Rightarrow> bool" where
  "documented_run [] q = True"
| "documented_run (e # es) q =
     (documented q e \<and> (case step e q of None \<Rightarrow> False | Some q' \<Rightarrow> documented_run es q'))"

text \<open>
  \<open>untouched q r x\<close>: from \<open>q\<close> to \<open>x\<close> the scheduler has left the job \<open>r\<close> alone.
  \<open>retired q r\<close>: nothing can schedule \<open>r\<close> any more.
\<close>

definition untouched :: "queue \<Rightarrow> nat \<Rightarrow> queue \<Rightarrow> bool" where
  "untouched q r x \<longleftrightarrow>
     r \<notin> set (jobs x) \<and> objs x r = objs q r \<and> nalloc x = nalloc q \<and>
     (r \<in> set (awaiting x) \<longleftrightarrow> r \<in> set (awaiting q)) \<and>
     (r \<in> set (unhandled x) \<longleftrightarrow> r \<in> set (unhandled q)) \<and>
     (r \<in> fst ` set (timers x) \<longleftrightarrow> r \<in> fst ` set (timers q)) \<and>
     (r \<in> set (completed x) \<longleftrightarrow> r \<in> set (completed q)) \<and>
     (r \<in> set (failed x) \<longleftrightarrow> r \<in> set (failed q)) \<and>
     set (timers q) \<subseteq> set (timers x)"

definition retired :: "queue \<Rightarrow> nat \<Rightarrow> bool" where
  "retired q r \<longleftrightarrow>
     r < nalloc q \<and> r \<notin> set (jobs q) \<and> r \<notin> fst ` set (timers q) \<and> r \<notin> set (awaiting q)"

text \<open>
  The rejections of the handler of \<open>r\<close> among the events of a run, and what a run of
  the scheduler keeps of a job whose type has a handler (\<open>handled\<close>, \<open>ready\<close>).
\<close>

fun is_rejection :: "nat \<Rightarrow> event \<Rightarrow> bool" where
  "is_rejection r (Rejected a e now) = (a = r)"
| "is_rejection r (RejectedNullish a) = (a = r)"
| "is_rejection r ev = False"

definition rejections :: "nat \<Rightarrow> event list \<Rightarrow> nat" where
  "rejections r es = length (filter (is_rejection r) es)"

definition handled :: "queue \<Rightarrow> nat \<Rightarrow> queue \<Rightarrow> bool" where
  "handled q r x \<longleftrightarrow>
     attempts (objs x r) = attempts (objs q r) \<and> job_type (objs x r) = job_type (objs q r) \<and>
     maxAttempts (objs x r) = maxAttempts (objs q r) \<and> job_id (objs x r) = job_id (objs q r) \<and>
     handlers x = handlers q \<and> nalloc x = nalloc q"


text \<open>
  The order of dispatch: higher priority first and, among equal priorities, the job
  added first. \<open>calm\<close> events never put a job back into the waiting array: a job is added
  without delay for a type that has a handler, no timer fires and no handler rejects.
  \<open>dispatched x y\<close> says that from \<open>x\<close> to \<open>y\<close> the scheduler started a prefix of the
  waiting array.
\<close>

definition before :: "(nat \<Rightarrow> job) \<Rightarrow> nat \<Rightarrow> nat \<Rightarrow> bool" where
  "before os a b \<longleftrightarrow>
     priority (os b) < priority (os a) \<or> (priority (os a) = priority (os b) \<and> a < b)"

definition fifo_sorted :: "(nat \<Rightarrow> job) \<Rightarrow> nat list \<Rightarrow> bool" where
  "fifo_sorted os rs = sorted_wrt (before os) rs"

fun calm :: "queue \<Rightarrow> event \<Rightarrow> bool" where
  "calm q (Add t d opts gid now) =
     (delay (new_job gid t d opts now) \<le> 0 \<and>
      handlers q (job_type (new_job gid t d opts now)) \<noteq> None)"
| "calm q (TimerFired r d now) = False"
| "calm q (Rejected r e now) = False"
| "calm q (RejectedNullish r) = False"
| "calm q ev = True"

fun calm_run :: "event list \<Rightarrow> queue \<Rightarrow> bool" where
  "calm_run [] q = True"
| "calm_run (e # es) q =
     (calm q e \<and> (case step e q of None \<Rightarrow> False | Some q' \<Rightarrow> calm_run es q'))"

definition calm_inv :: "queue \<Rightarrow> bool" where
  "calm_inv q \<longleftrightarrow>
     timers q = [] \<and>
     (\<forall>r \<in> set (jobs q). delay (objs q r) \<le> 0 \<and> handlers q (job_type (objs q r)) \<noteq> None) \<and>
     fifo_sorted (objs q) (jobs q)"

definition dispatched :: "queue \<Rightarrow> queue \<Rightarrow> bool" where
  "dispatched x y \<longleftrightarrow>
     (\<exists>k \<le> length (jobs x). jobs y = drop k (jobs x) \<and>
        processing y = processing x @ take k (jobs x)) \<and>
     timers y = timers x \<and> handlers y = handlers x \<and>
     (\<forall>r. priority (objs y r) = priority (objs x r) \<and> delay (objs y r) = delay (objs x r) \<and>
          job_type (objs y r) = job_type (objs x r))"



subsection \<open>Example runs\<close>

text \<open>
  Concrete queues, used to evaluate the definitions. \<open>storyQueue\<close> is the queue of
  line 215 with its handler of line 221.
\<close>

definition boom :: jserror where
  "boom = \<lparr> message = Some ''boom'', stack = Some ''Error: boom'' \<rparr>"

definition storyQueue :: queue where
  "storyQueue = process ''generate_story'' 0 (new_queue ''story_generation'' 2)"

text \<open>Three jobs are added to \<open>storyQueue\<close> and the handler of the first one rejects.\<close>

definition ex_retry :: "event list" where
  "ex_retry =
     [Process ''generate_story'' 0,
      Add ''generate_story'' ''s1'' no_options ''id1'' 10,
      Add ''generate_story'' ''s2'' no_options ''id2'' 11,
      Add ''generate_story'' ''s3'' no_options ''id3'' 12,
      Rejected 0 boom 20]"

text \<open>
  Two jobs, the second with \<open>{maxAttempts: 1}\<close>: the first completes at 100 and the
  second fails for good at 150.
\<close>

definition ex_done :: "event list" where
  "ex_done =
     [Process ''generate_story'' 0,
      Add ''generate_story'' ''s1'' no_options ''id1'' 10,
      Add ''generate_story'' ''s2'' (no_options\<lparr> opt_maxAttempts := Some 1 \<rparr>) ''id2'' 11,
      Resolved 0 ''ok'' 100,
      Rejected 1 boom 150]"


text \<open>
  The scenario of the spec: \<open>maxAttempts = 3\<close>, the handler throws on its first two
  invocations and returns \<open>ok\<close> on the third. \<open>ex_twice\<close> are the events up to the third
  invocation.
\<close>

definition ex_twice :: "event list" where
  "ex_twice =
     [Rejected 0 boom 20, TimerFired 0 2000 2020, Rejected 0 boom 2030, TimerFired 0 4000 6030]"

text \<open>
  The handler fails on each of its three invocations; the timers of 2000 and 4000 ms fire
  in between.
\<close>

definition ex_fail :: "event list" where
  "ex_fail = ex_twice @ [Rejected 0 boom 6040]"

text \<open>
  The handler rejects with \<open>null\<close>, and a second job is added afterwards.
\<close>

definition ex_null :: "event list" where
  "ex_null = [RejectedNullish 0, Add ''generate_story'' ''s2'' no_options ''id2'' 30]"

text \<open>
  Two jobs fill the two slots of \<open>storyQueue\<close>, and a third is added with \<open>{delay: 5000}\<close>.
\<close>

definition ex_busy :: "event list" where
  "ex_busy =
     [Process ''generate_story'' 0,
      Add ''generate_story'' ''s1'' no_options ''id1'' 10,
      Add ''generate_story'' ''s2'' no_options ''id2'' 11,
      Add ''generate_story'' ''s3'' (no_options\<lparr> opt_delay := Some 5000 \<rparr>) ''id3'' 12]"

definition ex_started :: "event list" where
  "ex_started = [Process ''generate_story'' 0, Add ''generate_story'' ''s1'' no_options ''id1'' 10]"

text \<open>
  The priority scenario of the spec: a queue with concurrency 1 and an \<open>echo\<close> handler,
  and jobs added with priorities 1, 5 and 3; \<open>ex_calm\<close> adds a second job of priority 5.
\<close>

definition with_priority :: "int \<Rightarrow> options" where
  "with_priority p = no_options\<lparr> opt_priority := Some p \<rparr>"

definition ex_priorities :: "event list" where
  "ex_priorities =
     [Process ''echo'' 0,
      Add ''echo'' ''a'' (with_priority 1) ''id1'' 10,
      Add ''echo'' ''b'' (with_priority 5) ''id2'' 11,
      Add ''echo'' ''c'' (with_priority 3) ''id3'' 12]"

definition ex_calm :: "event list" where
  "ex_calm = ex_priorities @ [Add ''echo'' ''d'' (with_priority 5) ''id4'' 13]"


text \<open>
  A job of priority 1 with \<open>{delay: 100}\<close> is added first, then jobs of priority 0 and 5;
  the timer of the first job fires while the second job runs.
\<close>

definition ex_requeue :: "event list" where
  "ex_requeue =
     [Process ''echo'' 0,
      Add ''echo'' ''c'' ((with_priority 1)\<lparr> opt_delay := Some 100 \<rparr>) ''id1'' 10,
      Add ''echo'' ''a'' no_options ''id2'' 11,
      Add ''echo'' ''b'' (with_priority 5) ''id3'' 12,
      TimerFired 0 100 110]"

section \<open>Auxiliary facts\<close>

declare startProcessing_loop.simps [simp del]

lemma loop_rule:
  assumes "I q"
    and "\<And>q. I q \<Longrightarrow> jobs q \<noteq> [] \<Longrightarrow> length (processing q) < concurrency q \<Longrightarrow>
           0 < delay (objs q (hd (jobs q))) \<Longrightarrow>
           I (q\<lparr> jobs := tl (jobs q),
                      timers := timers q @ [(hd (jobs q), delay (objs q (hd (jobs q))))] \<rparr>)"
    and "\<And>q. I q \<Longrightarrow> jobs q \<noteq> [] \<Longrightarrow> length (processing q) < concurrency q \<Longrightarrow>
           \<not> 0 < delay (objs q (hd (jobs q))) \<Longrightarrow>
           I (processJob (hd (jobs q)) now (q\<lparr> jobs := tl (jobs q) \<rparr>))"
  shows "I (startProcessing_loop now q)"
proof -
  have "n = now \<Longrightarrow> I q \<Longrightarrow> I (startProcessing_loop n q)" for n
  proof (induction n q rule: startProcessing_loop.induct)
    case (1 n q)
    show ?case
    proof (cases "jobs q \<noteq> [] \<and> length (processing q) < concurrency q")
      case False
      then show ?thesis using 1(4) by (subst startProcessing_loop.simps) auto
    next
      case True
      show ?thesis
      proof (cases "0 < delay (objs q (hd (jobs q)))")
        case d: True
        have "startProcessing_loop n q = startProcessing_loop n
                (q\<lparr> jobs := tl (jobs q),
                        timers := timers q @ [(hd (jobs q), delay (objs q (hd (jobs q))))] \<rparr>)"
          by (subst startProcessing_loop.simps) (use True d in simp)
        moreover have "I (q\<lparr> jobs := tl (jobs q),
                        timers := timers q @ [(hd (jobs q), delay (objs q (hd (jobs q))))] \<rparr>)"
          using assms(2)[OF 1(4)] True d by blast
        ultimately show ?thesis using 1(1)[OF True d 1(3)] by simp
      next
        case d: False
        have "startProcessing_loop n q = startProcessing_loop n
                (processJob (hd (jobs q)) n (q\<lparr> jobs := tl (jobs q) \<rparr>))"
          by (subst startProcessing_loop.simps) (use True d in simp)
        moreover have "I (processJob (hd (jobs q)) n (q\<lparr> jobs := tl (jobs q) \<rparr>))"
          using assms(3)[OF 1(4)] True d 1(3) by blast
        ultimately show ?thesis using 1(2)[OF True d 1(3)] by simp
      qed
    qed
  qed
  then show ?thesis using assms(1) by simp
qed

lemma without_id_snoc_self [simp]:
  "job_id (os r) = i \<Longrightarrow> without_id os i (rs @ [r]) = without_id os i rs"
  by (simp add: without_id_def)

lemma without_id_upd [simp]:
  "job_id j = job_id (os r) \<Longrightarrow> without_id (os(r := j)) i rs = without_id os i rs"
  by (auto simp: without_id_def intro!: filter_cong)

lemma set_without_id: "x \<in> set (without_id os i rs) \<Longrightarrow> x \<in> set rs"
  by (auto simp: without_id_def)

lemma without_id_subset: "set (without_id os i rs) \<subseteq> set rs"
  by (auto simp: without_id_def)

lemma without_id_self: "job_id (os r) = i \<Longrightarrow> r \<notin> set (without_id os i rs)"
  by (auto simp: without_id_def)

lemma distinct_without_id: "distinct rs \<Longrightarrow> distinct (without_id os i rs)"
  by (auto simp: without_id_def)

lemma length_without_id: "length (without_id os i rs) \<le> length rs"
  by (auto simp: without_id_def)

lemma refs_ok_defer:
  assumes "refs_ok q" "jobs q \<noteq> []"
  shows "refs_ok (q\<lparr> jobs := tl (jobs q), timers := timers q @ [(hd (jobs q), d)] \<rparr>)"
proof -
  obtain r rest where j: "jobs q = r # rest" using assms(2) by (cases "jobs q") auto
  show ?thesis using assms(1) unfolding refs_ok_def j by auto
qed

lemma refs_ok_processJob:
  assumes "refs_ok q" "jobs q \<noteq> []"
  shows "refs_ok (processJob (hd (jobs q)) now (q\<lparr> jobs := tl (jobs q) \<rparr>))"
proof -
  obtain r rest where j: "jobs q = r # rest" using assms(2) by (cases "jobs q") auto
  show ?thesis
  proof (cases "handlers q (job_type (objs q r))")
    case (Some h)
    then show ?thesis using assms(1) unfolding refs_ok_def j processJob_def Let_def
      by auto
  next
    case None
    then show ?thesis using assms(1) unfolding refs_ok_def j processJob_def catch_block_def Let_def
      by (auto simp: distinct_without_id dest!: set_without_id)
  qed
qed

lemma marks_ok_defer:
  assumes "marks_ok q" "refs_ok q" "jobs q \<noteq> []" "0 < delay (objs q (hd (jobs q)))"
  shows "marks_ok (q\<lparr> jobs := tl (jobs q),
                       timers := timers q @ [(hd (jobs q), delay (objs q (hd (jobs q))))] \<rparr>)"
  using assms unfolding marks_ok_def by auto

lemma marks_ok_processJob:
  assumes "marks_ok q" "refs_ok q" "jobs q \<noteq> []"
  shows "marks_ok (processJob (hd (jobs q)) now (q\<lparr> jobs := tl (jobs q) \<rparr>))"
proof -
  obtain r rest where j: "jobs q = r # rest" using assms(3) by (cases "jobs q") auto
  have nin: "r \<notin> set (completed q)" "r \<notin> set (failed q)" "r \<notin> set (awaiting q)"
    "r \<notin> fst ` set (timers q)" "r \<notin> set (unhandled q)"
    using assms(2) unfolding refs_ok_def j by auto
  show ?thesis
  proof (cases "handlers q (job_type (objs q r))")
    case (Some h)
    then show ?thesis using assms(1) nin unfolding marks_ok_def j processJob_def Let_def
      by (auto simp: rev_image_eqI)
  next
    case None
    then show ?thesis using assms(1) nin unfolding marks_ok_def j processJob_def catch_block_def Let_def
      by (auto simp: rev_image_eqI)
  qed
qed

lemma bounded_processJob:
  assumes "length (processing q) < concurrency q"
  shows "bounded (processJob r now (q\<lparr> jobs := js \<rparr>))"
proof -
  have "length (without_id os i (processing q)) \<le> concurrency q" for os i
    using length_without_id[of os i "processing q"] assms by simp
  then show ?thesis using assms
    unfolding bounded_def processJob_def catch_block_def Let_def
    by (auto split: option.splits)
qed

lemma inv_loop: "inv q \<Longrightarrow> inv (startProcessing_loop now q)"
proof (rule loop_rule[where I=inv])
  fix q assume "inv q" "jobs q \<noteq> []" "0 < delay (objs q (hd (jobs q)))"
  then show "inv (q\<lparr> jobs := tl (jobs q),
                       timers := timers q @ [(hd (jobs q), delay (objs q (hd (jobs q))))] \<rparr>)"
    using refs_ok_defer[of q] marks_ok_defer[of q] by (simp add: inv_def bounded_def)
next
  fix q assume "inv q" "jobs q \<noteq> []" "length (processing q) < concurrency q"
  then show "inv (processJob (hd (jobs q)) now (q\<lparr> jobs := tl (jobs q) \<rparr>))"
    using refs_ok_processJob[of q] marks_ok_processJob[of q] bounded_processJob[of q]
    by (simp add: inv_def)
qed

lemma inv_isProcessing [simp]: "inv (q\<lparr> isProcessing := b \<rparr>) = inv q"
  by (simp add: inv_def refs_ok_def marks_ok_def bounded_def)

lemma inv_startProcessing: "inv q \<Longrightarrow> inv (startProcessing now q)"
  by (simp add: startProcessing_def inv_loop)

lemma loop_exit:
  "jobs (startProcessing_loop now q) = [] \<or>
   concurrency (startProcessing_loop now q) \<le> length (processing (startProcessing_loop now q))"
proof (induction now q rule: startProcessing_loop.induct)
  case (1 now q)
  show ?case
  proof (cases "jobs q \<noteq> [] \<and> length (processing q) < concurrency q")
    case False
    then show ?thesis by (subst (1 2 3) startProcessing_loop.simps) auto
  next
    case True
    then show ?thesis using 1 by (subst (1 2 3) startProcessing_loop.simps) auto
  qed
qed

lemma quiet_startProcessing: "\<not> isProcessing q \<Longrightarrow> quiet (startProcessing now q)"
  using loop_exit[of now "q\<lparr>isProcessing := True\<rparr>"] by (simp add: quiet_def startProcessing_def)

lemma inv_new_queue: "inv (new_queue n c)"
  by (simp add: inv_def refs_ok_def marks_ok_def bounded_def new_queue_def)

lemma inv_process: "inv q \<Longrightarrow> inv (process t h q)"
  by (simp add: inv_def refs_ok_def marks_ok_def bounded_def process_def)

lemma refs_ok_cleanup: "refs_ok q \<Longrightarrow> refs_ok (snd (cleanup maxAge now q))"
  unfolding refs_ok_def cleanup_def Let_def by auto

lemma marks_ok_cleanup: "marks_ok q \<Longrightarrow> marks_ok (snd (cleanup maxAge now q))"
  unfolding marks_ok_def cleanup_def Let_def by simp

lemma inv_cleanup: "inv q \<Longrightarrow> inv (snd (cleanup maxAge now q))"
  using refs_ok_cleanup marks_ok_cleanup
  by (simp add: inv_def) (simp add: bounded_def cleanup_def Let_def)

lemma refs_ok_enqueue: "refs_ok q \<Longrightarrow> refs_ok (enqueue t d opts gid now q)"
  unfolding refs_ok_def enqueue_def Let_def sort_jobs_def
  by (auto simp: less_Suc_eq)

lemma marks_ok_enqueue:
  assumes "marks_ok q" "refs_ok q"
  shows "marks_ok (enqueue t d opts gid now q)"
proof -
  have "nalloc q \<notin> set (completed q)" "nalloc q \<notin> set (failed q)" "nalloc q \<notin> set (awaiting q)"
    "nalloc q \<notin> fst ` set (timers q)" "nalloc q \<notin> set (unhandled q)"
    using assms(2) unfolding refs_ok_def by auto
  then show ?thesis using assms(1)
    unfolding marks_ok_def enqueue_def Let_def by (auto simp: rev_image_eqI)
qed

lemma inv_enqueue: "inv q \<Longrightarrow> inv (enqueue t d opts gid now q)"
  using refs_ok_enqueue marks_ok_enqueue
  by (simp add: inv_def) (simp add: bounded_def enqueue_def Let_def)

lemma remove1_fst_notin:
  "distinct (map fst xs) \<Longrightarrow> (r, d) \<in> set xs \<Longrightarrow> r \<notin> fst ` set (remove1 (r, d) xs)"
  by (induction xs) (auto simp: rev_image_eqI)

lemma fst_set_remove1: "y \<in> fst ` set (remove1 x xs) \<Longrightarrow> y \<in> fst ` set xs"
  using set_remove1_subset[of x xs] by auto

lemma distinct_map_fst_remove1: "distinct (map fst xs) \<Longrightarrow> distinct (map fst (remove1 x xs))"
  unfolding distinct_map using set_remove1_subset[of x xs] by (auto intro: inj_on_subset)

lemma refs_ok_timer_pre:
  assumes "refs_ok q" "(r, d) \<in> set (timers q)"
  shows "refs_ok (q\<lparr> timers := remove1 (r, d) (timers q),
                 objs := (objs q)(r := (objs q r)\<lparr> delay := 0 \<rparr>),
                 jobs := r # jobs q \<rparr>)"
proof -
  have r: "r \<in> fst ` set (timers q)" using assms(2) by (auto simp: rev_image_eqI)
  have n: "r \<notin> fst ` set (remove1 (r, d) (timers q))"
    using assms remove1_fst_notin[of "timers q" r d] by (simp add: refs_ok_def)
  show ?thesis
    using assms(1) r n unfolding refs_ok_def
    by (auto simp: distinct_map_fst_remove1 dest!: fst_set_remove1)
qed

lemma marks_ok_timer_pre:
  assumes "marks_ok q" "refs_ok q" "(r, d) \<in> set (timers q)"
  shows "marks_ok (q\<lparr> timers := remove1 (r, d) (timers q),
                 objs := (objs q)(r := (objs q r)\<lparr> delay := 0 \<rparr>),
                 jobs := r # jobs q \<rparr>)"
proof -
  have r: "r \<in> fst ` set (timers q)" using assms(3) by (auto simp: rev_image_eqI)
  have n: "r \<notin> fst ` set (remove1 (r, d) (timers q))"
    using assms remove1_fst_notin[of "timers q" r d] by (simp add: refs_ok_def)
  have nin: "r \<notin> set (completed q)" "r \<notin> set (failed q)" "r \<notin> set (awaiting q)"
    "r \<notin> set (unhandled q)"
    using assms(2) r unfolding refs_ok_def by auto
  have t: "t \<in> set (timers q) \<and> fst t \<noteq> r" if "t \<in> set (remove1 (r, d) (timers q))" for t
    using that n set_remove1_subset[of "(r, d)" "timers q"] by auto
  show ?thesis
    using assms(1) nin t unfolding marks_ok_def by auto
qed

lemma inv_timer_pre:
  assumes "inv q" "(r, d) \<in> set (timers q)"
  shows "inv (q\<lparr> timers := remove1 (r, d) (timers q),
                 objs := (objs q)(r := (objs q r)\<lparr> delay := 0 \<rparr>),
                 jobs := r # jobs q \<rparr>)"
  using assms refs_ok_timer_pre[of q r d] marks_ok_timer_pre[of q r d]
  by (simp add: inv_def) (simp add: bounded_def)

lemma refs_ok_settle:
  assumes "refs_ok q" "r \<in> set (awaiting q)"
  shows "distinct (jobs q @ map fst (timers q) @ remove1 r (awaiting q) @ unhandled q @
                   completed q @ failed q)"
    and "r \<notin> set (jobs q @ map fst (timers q) @ remove1 r (awaiting q) @ unhandled q @
                    completed q @ failed q)"
    and "set (without_id (objs q) (job_id (objs q r)) (processing q))
         \<subseteq> set (remove1 r (awaiting q)) \<union> set (unhandled q)"
    and "distinct (without_id (objs q) (job_id (objs q r)) (processing q))"
    and "r < nalloc q"
proof -
  have d: "distinct (awaiting q)" using assms(1) by (simp add: refs_ok_def)
  then have s: "set (remove1 r (awaiting q)) = set (awaiting q) - {r}" by simp
  show "distinct (jobs q @ map fst (timers q) @ remove1 r (awaiting q) @ unhandled q @
                  completed q @ failed q)"
    using assms(1) d s unfolding refs_ok_def by auto
  show "r \<notin> set (jobs q @ map fst (timers q) @ remove1 r (awaiting q) @ unhandled q @
                   completed q @ failed q)"
    using assms d s unfolding refs_ok_def by auto
  show "set (without_id (objs q) (job_id (objs q r)) (processing q))
        \<subseteq> set (remove1 r (awaiting q)) \<union> set (unhandled q)"
    using assms(1) s unfolding refs_ok_def without_id_def by auto
  show "distinct (without_id (objs q) (job_id (objs q r)) (processing q))"
    using assms(1) unfolding refs_ok_def by (simp add: distinct_without_id)
  show "r < nalloc q" using assms unfolding refs_ok_def by auto
qed

lemma refs_ok_success_pre:
  assumes "refs_ok q" "r \<in> set (awaiting q)"
  shows "refs_ok (success_block r res now (q\<lparr> awaiting := remove1 r (awaiting q) \<rparr>))"
  using refs_ok_settle[OF assms] assms(1) set_remove1_subset[of r "awaiting q"]
  unfolding refs_ok_def success_block_def by auto

lemma refs_ok_catch_pre:
  assumes "refs_ok q" "r \<in> set (awaiting q)"
  shows "refs_ok (catch_block r e now (q\<lparr> awaiting := remove1 r (awaiting q) \<rparr>))"
  using refs_ok_settle[OF assms] assms(1) set_remove1_subset[of r "awaiting q"]
  unfolding refs_ok_def catch_block_def Let_def by auto

lemma marks_ok_success_pre:
  assumes "marks_ok q" "refs_ok q" "r \<in> set (awaiting q)"
  shows "marks_ok (success_block r res now (q\<lparr> awaiting := remove1 r (awaiting q) \<rparr>))"
proof -
  have nin: "r \<notin> set (completed q)" "r \<notin> set (failed q)" "r \<notin> set (remove1 r (awaiting q))"
    "r \<notin> fst ` set (timers q)" "r \<notin> set (unhandled q)"
    using refs_ok_settle(2)[OF assms(2,3)] by auto
  have a: "x \<in> set (awaiting q)" if "x \<in> set (remove1 r (awaiting q))" for x
    using that set_remove1_subset[of r "awaiting q"] by auto
  show ?thesis using assms(1) nin a unfolding marks_ok_def success_block_def
    by (auto simp: rev_image_eqI)
qed

lemma marks_ok_catch_pre:
  assumes "marks_ok q" "refs_ok q" "r \<in> set (awaiting q)"
  shows "marks_ok (catch_block r e now (q\<lparr> awaiting := remove1 r (awaiting q) \<rparr>))"
proof -
  have nin: "r \<notin> set (completed q)" "r \<notin> set (failed q)" "r \<notin> set (remove1 r (awaiting q))"
    "r \<notin> fst ` set (timers q)" "r \<notin> set (unhandled q)"
    using refs_ok_settle(2)[OF assms(2,3)] by auto
  have a: "x \<in> set (awaiting q)" if "x \<in> set (remove1 r (awaiting q))" for x
    using that set_remove1_subset[of r "awaiting q"] by auto
  show ?thesis using assms(1) nin a unfolding marks_ok_def catch_block_def Let_def
    by (auto simp: rev_image_eqI)
qed

lemma bounded_settle:
  assumes "bounded q"
  shows "bounded (success_block r res now (q\<lparr> awaiting := a \<rparr>))"
    and "bounded (catch_block r e now (q\<lparr> awaiting := a \<rparr>))"
  using assms length_without_id[of "objs q" "job_id (objs q r)" "processing q"]
  unfolding bounded_def success_block_def catch_block_def Let_def by auto

lemma refs_ok_nullish:
  assumes "refs_ok q" "r \<in> set (awaiting q)"
  shows "refs_ok (handler_rejected_nullish r q)"
proof -
  note st = refs_ok_settle[OF assms]
  have d: "distinct (awaiting q)" using assms(1) by (simp add: refs_ok_def)
  then have s: "set (remove1 r (awaiting q)) = set (awaiting q) - {r}" by simp
  have 1: "distinct (jobs q @ map fst (timers q) @ remove1 r (awaiting q) @ (unhandled q @ [r]) @
                     completed q @ failed q)"
    using st(1,2) by auto
  have 2: "set (processing q) \<subseteq> set (remove1 r (awaiting q)) \<union> set (unhandled q @ [r])"
    using assms(1) s unfolding refs_ok_def by auto
  have 3: "\<forall>x \<in> set (jobs q @ map fst (timers q) @ remove1 r (awaiting q) @ (unhandled q @ [r]) @
                     completed q @ failed q). x < nalloc q"
    using assms(1) st(5) s unfolding refs_ok_def by auto
  show ?thesis using 1 2 3 assms(1) unfolding refs_ok_def handler_rejected_nullish_def by simp
qed

lemma marks_ok_nullish:
  assumes "marks_ok q" "refs_ok q" "r \<in> set (awaiting q)"
  shows "marks_ok (handler_rejected_nullish r q)"
proof -
  have a: "x \<in> set (awaiting q)" if "x \<in> set (remove1 r (awaiting q))" for x
    using that set_remove1_subset[of r "awaiting q"] by auto
  show ?thesis using assms(1,3) a unfolding marks_ok_def handler_rejected_nullish_def
    by auto
qed

lemma inv_nullish:
  assumes "inv q" "r \<in> set (awaiting q)"
  shows "inv (handler_rejected_nullish r q)"
  using assms refs_ok_nullish marks_ok_nullish
  by (simp add: inv_def) (simp add: bounded_def handler_rejected_nullish_def)

lemma inv_step:
  assumes "inv q" "step e q = Some q'"
  shows "inv q'"
proof (cases e)
  case (Process t h)
  then show ?thesis using assms inv_process by auto
next
  case (Add t d opts gid now)
  then show ?thesis using assms inv_enqueue inv_startProcessing by (auto simp: add_def)
next
  case (TimerFired r d now)
  then show ?thesis using assms inv_timer_pre[of q r d] inv_startProcessing
    by (auto simp: timer_fired_def split: if_splits)
next
  case (Resolved r res now)
  then have r: "r \<in> set (awaiting q)" using assms(2) by (auto split: if_splits)
  have "inv (success_block r res now (q\<lparr> awaiting := remove1 r (awaiting q) \<rparr>))"
    using assms(1) r refs_ok_success_pre marks_ok_success_pre bounded_settle(1)
    by (simp add: inv_def)
  then show ?thesis using Resolved assms(2) r inv_startProcessing
    by (auto simp: handler_resolved_def)
next
  case (Rejected r err now)
  then have r: "r \<in> set (awaiting q)" using assms(2) by (auto split: if_splits)
  have "inv (catch_block r err now (q\<lparr> awaiting := remove1 r (awaiting q) \<rparr>))"
    using assms(1) r refs_ok_catch_pre marks_ok_catch_pre bounded_settle(2)
    by (simp add: inv_def)
  then show ?thesis using Rejected assms(2) r inv_startProcessing
    by (auto simp: handler_rejected_def)
next
  case (RejectedNullish r)
  then show ?thesis using assms inv_nullish by (auto split: if_splits)
next
  case (Cleanup maxAge now)
  then show ?thesis using assms inv_cleanup by auto
qed

lemma quiet_step:
  assumes "quiet q" "step e q = Some q'"
  shows "quiet q'"
proof (cases e)
  case (Process t h)
  then show ?thesis using assms by (auto simp: quiet_def process_def)
next
  case (Add t d opts gid now)
  then show ?thesis using assms quiet_startProcessing[of "enqueue t d opts gid now q" now]
    by (auto simp: add_def quiet_def enqueue_def Let_def)
next
  case (TimerFired r d now)
  then show ?thesis using assms
    by (auto simp: timer_fired_def quiet_def intro!: quiet_startProcessing[unfolded quiet_def, THEN conjunct1] quiet_startProcessing[unfolded quiet_def, THEN conjunct2] split: if_splits)
next
  case (Resolved r res now)
  then show ?thesis using assms
      quiet_startProcessing[of "success_block r res now (q\<lparr> awaiting := remove1 r (awaiting q) \<rparr>)" now]
    by (auto simp: handler_resolved_def quiet_def success_block_def split: if_splits)
next
  case (Rejected r err now)
  then show ?thesis using assms
      quiet_startProcessing[of "catch_block r err now (q\<lparr> awaiting := remove1 r (awaiting q) \<rparr>)" now]
    by (auto simp: handler_rejected_def quiet_def catch_block_def Let_def split: if_splits)
next
  case (RejectedNullish r)
  then show ?thesis using assms
    by (auto simp: quiet_def handler_rejected_nullish_def split: if_splits)
next
  case (Cleanup maxAge now)
  then show ?thesis using assms by (auto simp: quiet_def cleanup_def Let_def)
qed

lemma reach_inv: "reach ok q \<Longrightarrow> inv q \<and> quiet q"
proof (induction rule: reach.induct)
  case (reach_new n c)
  then show ?case using inv_new_queue by (simp add: quiet_def new_queue_def)
next
  case (reach_step q e q')
  then show ?case using inv_step quiet_step by blast
qed

lemma reach_run:
  "reach any_event q \<Longrightarrow> run es q = Some q' \<Longrightarrow> reach any_event q'"
proof (induction es arbitrary: q)
  case Nil
  then show ?case by simp
next
  case (Cons e es)
  then obtain q1 where s: "step e q = Some q1" and r: "run es q1 = Some q'"
    by (auto split: option.splits)
  have "any_event q e" by (simp add: any_event_def)
  then have "reach any_event q1" using reach_step[OF Cons.prems(1) _ s] by blast
  then show ?case using Cons.IH r by blast
qed

lemma run_reach: "run es (new_queue n c) = Some q \<Longrightarrow> reach any_event q"
  using reach_run[OF reach_new] by blast

lemma timers_not_processing:
  assumes "refs_ok q" "t \<in> set (timers q)"
  shows "fst t \<notin> set (processing q)"
  using assms unfolding refs_ok_def by auto

lemma filter_date:
  assumes "\<forall>r \<in> set xs. f r \<noteq> None"
  shows "filter (\<lambda>r. date_ge (f r) (Some c)) xs = filter (\<lambda>r. \<not> the (f r) < c) xs"
    and "filter (\<lambda>r. date_lt (f r) (Some c)) xs = filter (\<lambda>r. the (f r) < c) xs"
  using assms by (auto simp: date_ge_def date_lt_def intro!: filter_cong)

lemma length_filter_split:
  "length (filter P xs) = length xs - length (filter (\<lambda>x. \<not> P x) xs)"
  using sum_length_filter_compl[of P xs] by simp


lemma loop_concurrency: "concurrency (startProcessing_loop now q) = concurrency q"
  by (rule loop_rule[where I="\<lambda>x. concurrency x = concurrency q"])
    (auto simp: processJob_def catch_block_def Let_def split: option.splits)

lemma step_concurrency: "step e q = Some q' \<Longrightarrow> concurrency q' = concurrency q"
  by (cases e)
    (auto simp: process_def add_def enqueue_def timer_fired_def handler_resolved_def
      handler_rejected_def handler_rejected_nullish_def cleanup_def startProcessing_def
      loop_concurrency success_block_def catch_block_def Let_def split: if_splits)

lemma run_concurrency: "run es q = Some q' \<Longrightarrow> concurrency q' = concurrency q"
proof (induction es arbitrary: q)
  case Nil
  then show ?case by simp
next
  case (Cons e es)
  then show ?case using step_concurrency by (fastforce split: option.splits)
qed

lemma loop_handlers: "handlers (startProcessing_loop now q) = handlers q"
  by (rule loop_rule[where I="\<lambda>x. handlers x = handlers q"])
    (auto simp: processJob_def catch_block_def Let_def split: option.splits)

lemma processJob_job_type: "job_type (objs (processJob r' now q) r) = job_type (objs q r)"
  by (auto simp: processJob_def catch_block_def Let_def split: option.splits)

lemma loop_job_type: "job_type (objs (startProcessing_loop now q) r) = job_type (objs q r)"
  by (rule loop_rule[where I="\<lambda>x. job_type (objs x r) = job_type (objs q r)"])
    (auto simp: processJob_job_type)

lemma sync_status_processJob:
  "sync_status q r \<Longrightarrow> sync_status (processJob r' now (q\<lparr> jobs := js \<rparr>)) r"
  unfolding sync_status_def processJob_def catch_block_def Let_def
  by (cases "r' = r") (auto split: option.splits)

lemma sync_status_loop: "sync_status q r \<Longrightarrow> sync_status (startProcessing_loop now q) r"
  by (rule loop_rule[where I="\<lambda>x. sync_status x r"])
    (auto simp: sync_status_processJob, simp add: sync_status_def)

lemma sync_status_startProcessing:
  "sync_status q r \<Longrightarrow> sync_status (startProcessing now q) r"
  using sync_status_loop[of "q\<lparr>isProcessing := True\<rparr>" r now]
  by (simp add: startProcessing_def sync_status_def)

lemma loop_stop:
  "jobs q = [] \<or> concurrency q \<le> length (processing q) \<Longrightarrow> startProcessing_loop now q = q"
  by (subst startProcessing_loop.simps) auto

lemma add_idle:
  assumes "\<not> isProcessing q" "jobs q = []" "length (processing q) < concurrency q"
    "handlers q (job_type (new_job gid t d opts now)) \<noteq> None"
    "delay (new_job gid t d opts now) \<le> 0"
  shows "status (objs (snd (add t d opts gid now q)) (nalloc q)) = ''processing'' \<and>
         startedAt (objs (snd (add t d opts gid now q)) (nalloc q)) = Some now \<and>
         nalloc q \<in> set (processing (snd (add t d opts gid now q))) \<and>
         jobs (snd (add t d opts gid now q)) = []"
proof -
  let ?e = "(enqueue t d opts gid now q)\<lparr> isProcessing := True \<rparr>"
  let ?p = "processJob (nalloc q) now (?e\<lparr> jobs := [] \<rparr>)"
  have e: "jobs ?e = [nalloc q]" "objs ?e (nalloc q) = new_job gid t d opts now"
    "processing ?e = processing q" "concurrency ?e = concurrency q" "handlers ?e = handlers q"
    using assms(2) by (simp_all add: enqueue_def Let_def sort_jobs_def)
  have 1: "startProcessing_loop now ?e = startProcessing_loop now ?p"
    by (subst startProcessing_loop.simps) (use e assms in simp)
  have p: "jobs ?p = []" "status (objs ?p (nalloc q)) = ''processing''"
    "startedAt (objs ?p (nalloc q)) = Some now" "nalloc q \<in> set (processing ?p)"
    using e assms(4) by (auto simp: processJob_def Let_def)
  have 2: "startProcessing_loop now ?p = ?p" using p(1) by (simp add: loop_stop)
  show ?thesis using assms(1) 1 2 p by (simp add: add_def startProcessing_def enqueue_def Let_def)
qed

lemma add_free_slot_no_handler:
  assumes "\<not> isProcessing q" "jobs q = []" "length (processing q) < concurrency q"
    "handlers q (job_type (new_job gid t d opts now)) = None"
    "delay (new_job gid t d opts now) \<le> 0"
  shows "let q' = snd (add t d opts gid now q); j = new_job gid t d opts now; r = nalloc q in
         attempts (objs q' r) = attempts j + 1 \<and>
         error (objs q' r) = Some (''No handler registered for job type: '' @ job_type j) \<and>
         (maxAttempts j \<le> attempts j + 1 \<longrightarrow>
            status (objs q' r) = ''failed'' \<and> failedAt (objs q' r) = Some now \<and>
            failed q' = failed q @ [r] \<and> timers q' = timers q \<and> jobs q' = []) \<and>
         (attempts j + 1 < maxAttempts j \<longrightarrow>
            status (objs q' r) = ''waiting'' \<and> delay (objs q' r) = 2 ^ (attempts j + 1) * 1000 \<and>
            timers q' = timers q @ [(r, 2 ^ (attempts j + 1) * 1000)] \<and>
            failed q' = failed q \<and> jobs q' = [])"
proof -
  let ?r = "nalloc q"
  let ?j = "new_job gid t d opts now"
  let ?e = "(enqueue t d opts gid now q)\<lparr> isProcessing := True \<rparr>"
  let ?p = "processJob ?r now (?e\<lparr> jobs := [] \<rparr>)"
  have e: "jobs ?e = [?r]" "objs ?e ?r = ?j"
    "processing ?e = processing q" "concurrency ?e = concurrency q" "handlers ?e = handlers q"
    "timers ?e = timers q" "failed ?e = failed q"
    using assms(2) by (simp_all add: enqueue_def Let_def sort_jobs_def)
  have 1: "startProcessing_loop now ?e = startProcessing_loop now ?p"
    by (subst startProcessing_loop.simps) (use e assms in simp)
  have q': "snd (add t d opts gid now q) = (startProcessing_loop now ?p)\<lparr> isProcessing := False \<rparr>"
    using assms(1) 1 by (simp add: add_def startProcessing_def enqueue_def Let_def)
  have len: "length (processing ?p) < concurrency ?p"
    using e assms(3,4) length_without_id[of "(objs ?e)(?r := (objs ?e ?r)\<lparr>status := ''processing'', startedAt := Some now\<rparr>)" "job_id ?j" "processing q"]
    by (auto simp: processJob_def catch_block_def Let_def split: option.splits)
  show ?thesis
  proof (cases "maxAttempts ?j \<le> attempts ?j + 1")
    case True
    have p: "jobs ?p = []" "status (objs ?p ?r) = ''failed''" "failedAt (objs ?p ?r) = Some now"
      "failed ?p = failed q @ [?r]" "timers ?p = timers q" "attempts (objs ?p ?r) = attempts ?j + 1"
      "error (objs ?p ?r) = Some (''No handler registered for job type: '' @ job_type ?j)"
      using e assms(4) True
      by (auto simp: processJob_def catch_block_def Let_def no_handler_error_def)
    have 2: "startProcessing_loop now ?p = ?p" using p(1) by (simp add: loop_stop)
    show ?thesis using True p unfolding Let_def q' 2 by simp
  next
    case False
    let ?d = "2 ^ (attempts ?j + 1) * 1000 :: int"
    have p: "jobs ?p = [?r]" "status (objs ?p ?r) = ''waiting''" "delay (objs ?p ?r) = ?d"
      "failed ?p = failed q" "timers ?p = timers q" "attempts (objs ?p ?r) = attempts ?j + 1"
      "error (objs ?p ?r) = Some (''No handler registered for job type: '' @ job_type ?j)"
      using e assms(4) False
      by (auto simp: processJob_def catch_block_def Let_def no_handler_error_def)
    let ?t = "?p\<lparr> jobs := [], timers := timers q @ [(?r, ?d)] \<rparr>"
    have pos: "0 < ?d" by simp
    have 2: "startProcessing_loop now ?p = startProcessing_loop now ?t"
      by (subst startProcessing_loop.simps) (use p len pos in simp)
    have 3: "startProcessing_loop now ?t = ?t" by (simp add: loop_stop)
    show ?thesis using False p unfolding Let_def q' 2 3 by simp
  qed
qed

lemma processJob_no_handler:
  assumes "handlers q (job_type (objs q r)) = None"
  shows "attempts (objs (processJob r now q) r) = attempts (objs q r) + 1 \<and>
     error (objs (processJob r now q) r) =
       Some (''No handler registered for job type: '' @ job_type (objs q r)) \<and>
     awaiting (processJob r now q) = awaiting q \<and>
     (maxAttempts (objs q r) \<le> attempts (objs q r) + 1 \<longrightarrow>
        status (objs (processJob r now q) r) = ''failed'' \<and>
        failed (processJob r now q) = failed q @ [r] \<and> jobs (processJob r now q) = jobs q) \<and>
     (attempts (objs q r) + 1 < maxAttempts (objs q r) \<longrightarrow>
        status (objs (processJob r now q) r) = ''waiting'' \<and>
        delay (objs (processJob r now q) r) = 2 ^ (attempts (objs q r) + 1) * 1000 \<and>
        jobs (processJob r now q) = r # jobs q \<and> failed (processJob r now q) = failed q)"
  using assms by (simp add: processJob_def catch_block_def Let_def no_handler_error_def)

lemma used_ids_eq:
  "nalloc q' = nalloc q \<Longrightarrow> (\<And>r. job_id (objs q' r) = job_id (objs q r)) \<Longrightarrow> used_ids q' = used_ids q"
  by (simp add: used_ids_def)

lemma id_neq:
  assumes "distinct (used_ids q)" "x < nalloc q" "r < nalloc q" "x \<noteq> r"
  shows "job_id (objs q x) \<noteq> job_id (objs q r)"
proof -
  have "inj_on (\<lambda>r. job_id (objs q r)) (set [0..<nalloc q])"
    using assms(1) unfolding used_ids_def by (simp add: distinct_map)
  then show ?thesis using assms(2-4) by (auto simp: inj_on_def)
qed

lemma without_id_keeps:
  assumes "distinct (used_ids q)" "r < nalloc q" "x \<in> set rs" "x < nalloc q" "x \<noteq> r"
  shows "x \<in> set (without_id (objs q) (job_id (objs q r)) rs)"
  using id_neq[OF assms(1,4,2,5)] assms(3) by (simp add: without_id_def)

lemma ids_ok_defer:
  "ids_ok q \<Longrightarrow> ids_ok (q\<lparr> jobs := js, timers := ts \<rparr>)"
  by (simp add: ids_ok_def used_ids_def)

lemma ids_ok_processJob:
  assumes "ids_ok q" "refs_ok q" "jobs q \<noteq> []"
  shows "ids_ok (processJob (hd (jobs q)) now (q\<lparr> jobs := tl (jobs q) \<rparr>))"
proof -
  let ?r = "hd (jobs q)"
  let ?q' = "processJob ?r now (q\<lparr> jobs := tl (jobs q) \<rparr>)"
  have r: "?r \<in> set (jobs q)" using assms(3) by simp
  then have rn: "?r < nalloc q" and ra: "?r \<notin> set (awaiting q)"
    and ru: "?r \<notin> set (unhandled q)"
    using assms(2) unfolding refs_ok_def by auto
  have u: "used_ids ?q' = used_ids q"
    by (rule used_ids_eq) (auto simp: processJob_def catch_block_def Let_def split: option.splits)
  have d: "distinct (used_ids q)" using assms(1) by (simp add: ids_ok_def)
  have "x \<in> set (processing ?q')" if "x \<in> set (awaiting ?q') \<union> set (unhandled ?q')" for x
  proof (cases "handlers q (job_type (objs q ?r))")
    case (Some h)
    then show ?thesis using that assms(1) by (auto simp: processJob_def Let_def ids_ok_def)
  next
    case None
    then have "x \<in> set (awaiting q) \<union> set (unhandled q)" using that
      by (auto simp: processJob_def catch_block_def Let_def split: if_splits)
    then have "x \<in> set (processing q)" "x < nalloc q" "x \<noteq> ?r"
      using assms(1,2) ra ru by (auto simp: ids_ok_def refs_ok_def)
    then have "x \<in> set (without_id (objs q) (job_id (objs q ?r)) (processing q))"
      using without_id_keeps[OF d rn] by blast
    then show ?thesis using None by (simp add: processJob_def catch_block_def Let_def)
  qed
  then have "set (awaiting ?q') \<union> set (unhandled ?q') \<subseteq> set (processing ?q')" by blast
  then show ?thesis using d u by (simp add: ids_ok_def)
qed

lemma ids_ok_settle:
  assumes "ids_ok q" "refs_ok q" "r \<in> set (awaiting q)"
  shows "ids_ok (success_block r res now (q\<lparr> awaiting := remove1 r (awaiting q) \<rparr>))"
    and "ids_ok (catch_block r e now (q\<lparr> awaiting := remove1 r (awaiting q) \<rparr>))"
proof -
  have rn: "r < nalloc q" using assms(2,3) unfolding refs_ok_def by auto
  have d: "distinct (used_ids q)" using assms(1) by (simp add: ids_ok_def)
  have k: "x \<in> set (without_id (objs q) (job_id (objs q r)) (processing q))"
    if "x \<in> set (remove1 r (awaiting q)) \<union> set (unhandled q)" for x
  proof -
    have "distinct (awaiting q)" using assms(2) by (simp add: refs_ok_def)
    moreover have "r \<notin> set (unhandled q)" using refs_ok_settle(2)[OF assms(2,3)] by simp
    ultimately have "x \<in> set (awaiting q) \<union> set (unhandled q)" "x \<noteq> r" using that by auto
    then have "x \<in> set (processing q)" "x < nalloc q"
      using assms(1,2) by (auto simp: ids_ok_def refs_ok_def)
    then show ?thesis using without_id_keeps[OF d rn] \<open>x \<noteq> r\<close> by blast
  qed
  let ?s = "success_block r res now (q\<lparr> awaiting := remove1 r (awaiting q) \<rparr>)"
  let ?c = "catch_block r e now (q\<lparr> awaiting := remove1 r (awaiting q) \<rparr>)"
  have us: "used_ids ?s = used_ids q"
    by (rule used_ids_eq) (auto simp: success_block_def)
  have uc: "used_ids ?c = used_ids q"
    by (rule used_ids_eq) (auto simp: catch_block_def Let_def)
  have ps: "awaiting ?s = remove1 r (awaiting q)" "unhandled ?s = unhandled q"
    "processing ?s = without_id (objs q) (job_id (objs q r)) (processing q)"
    by (simp_all add: success_block_def)
  have pc: "awaiting ?c = remove1 r (awaiting q)" "unhandled ?c = unhandled q"
    "processing ?c = without_id (objs q) (job_id (objs q r)) (processing q)"
    by (simp_all add: catch_block_def Let_def)
  show "ids_ok ?s" unfolding ids_ok_def us ps using d k by blast
  show "ids_ok ?c" unfolding ids_ok_def uc pc using d k by blast
qed

lemma ids_ok_nullish:
  assumes "ids_ok q" "r \<in> set (awaiting q)"
  shows "ids_ok (handler_rejected_nullish r q)"
proof -
  have u: "used_ids (handler_rejected_nullish r q) = used_ids q"
    by (rule used_ids_eq) (auto simp: handler_rejected_nullish_def)
  have "set (remove1 r (awaiting q)) \<subseteq> set (awaiting q)" by (rule set_remove1_subset)
  then show ?thesis using assms unfolding ids_ok_def u
    by (auto simp: handler_rejected_nullish_def)
qed

lemma ids_ok_timer_pre:
  assumes "ids_ok q"
  shows "ids_ok (q\<lparr> timers := ts, objs := (objs q)(r := (objs q r)\<lparr> delay := 0 \<rparr>), jobs := js \<rparr>)"
proof -
  have "used_ids (q\<lparr> timers := ts, objs := (objs q)(r := (objs q r)\<lparr> delay := 0 \<rparr>), jobs := js \<rparr>)
        = used_ids q"
    by (rule used_ids_eq) auto
  then show ?thesis using assms by (simp add: ids_ok_def)
qed

lemma ids_ok_cleanup: "ids_ok q \<Longrightarrow> ids_ok (snd (cleanup maxAge now q))"
  by (simp add: ids_ok_def used_ids_def cleanup_def Let_def)

lemma ids_ok_process: "ids_ok q \<Longrightarrow> ids_ok (process t h q)"
  by (simp add: ids_ok_def used_ids_def process_def)

lemma ids_ok_enqueue:
  assumes "ids_ok q" "opt_id opts = None" "gid \<notin> set (used_ids q)"
  shows "ids_ok (enqueue t d opts gid now q)"
proof -
  have "used_ids (enqueue t d opts gid now q) = used_ids q @ [gid]"
    using assms(2)
    by (simp add: used_ids_def enqueue_def Let_def new_job_def spread_options_def
        job_defaults_def spread_key_def)
  then show ?thesis using assms(1,3) by (simp add: ids_ok_def) (simp add: enqueue_def Let_def)
qed

lemma ids_ok_isProcessing [simp]: "ids_ok (q\<lparr> isProcessing := b \<rparr>) = ids_ok q"
  by (simp add: ids_ok_def used_ids_def)

lemma waiting_ok_defer:
  assumes "waiting_ok q" "jobs q \<noteq> []"
  shows "waiting_ok (q\<lparr> jobs := tl (jobs q),
            timers := timers q @ [(hd (jobs q), delay (objs q (hd (jobs q))))] \<rparr>)"
proof -
  obtain r rest where j: "jobs q = r # rest" using assms(2) by (cases "jobs q") auto
  show ?thesis using assms(1) unfolding waiting_ok_def j by auto
qed

lemma waiting_ok_processJob:
  assumes "waiting_ok q" "refs_ok q" "jobs q \<noteq> []"
  shows "waiting_ok (processJob (hd (jobs q)) now (q\<lparr> jobs := tl (jobs q) \<rparr>))"
proof -
  obtain r rest where j: "jobs q = r # rest" using assms(3) by (cases "jobs q") auto
  have nin: "r \<notin> set rest" "r \<notin> fst ` set (timers q)"
    using assms(2) unfolding refs_ok_def j by auto
  show ?thesis
  proof (cases "handlers q (job_type (objs q r))")
    case (Some h)
    then show ?thesis using assms(1) nin unfolding waiting_ok_def j processJob_def Let_def
      by (auto simp: rev_image_eqI)
  next
    case None
    then show ?thesis using assms(1) nin unfolding waiting_ok_def j processJob_def catch_block_def Let_def
      by (auto simp: rev_image_eqI)
  qed
qed

lemma waiting_ok_settle:
  assumes "waiting_ok q" "refs_ok q" "r \<in> set (awaiting q)"
  shows "waiting_ok (success_block r res now (q\<lparr> awaiting := remove1 r (awaiting q) \<rparr>))"
    and "waiting_ok (catch_block r e now (q\<lparr> awaiting := remove1 r (awaiting q) \<rparr>))"
proof -
  have nin: "r \<notin> set (jobs q)" "r \<notin> fst ` set (timers q)"
    using refs_ok_settle(2)[OF assms(2,3)] by auto
  have a: "x \<in> set (awaiting q) \<Longrightarrow> x \<noteq> r \<Longrightarrow> x \<in> set (remove1 r (awaiting q))" for x
    by simp
  show "waiting_ok (success_block r res now (q\<lparr> awaiting := remove1 r (awaiting q) \<rparr>))"
    using assms(1) nin a unfolding waiting_ok_def success_block_def
    by (auto simp: rev_image_eqI)
  show "waiting_ok (catch_block r e now (q\<lparr> awaiting := remove1 r (awaiting q) \<rparr>))"
    using assms(1) nin a unfolding waiting_ok_def catch_block_def Let_def
    by (auto simp: rev_image_eqI)
qed

lemma waiting_ok_nullish:
  assumes "waiting_ok q" "refs_ok q" "r \<in> set (awaiting q)"
  shows "waiting_ok (handler_rejected_nullish r q)"
proof -
  have nin: "r \<notin> set (jobs q)" "r \<notin> fst ` set (timers q)"
    using refs_ok_settle(2)[OF assms(2,3)] by auto
  have a: "x \<in> set (awaiting q) \<Longrightarrow> x \<noteq> r \<Longrightarrow> x \<in> set (remove1 r (awaiting q))" for x
    by simp
  show ?thesis using assms(1) nin a unfolding waiting_ok_def handler_rejected_nullish_def
    by (auto simp: rev_image_eqI)
qed

lemma attempts_ok_nullish:
  assumes "attempts_ok q"
  shows "attempts_ok (handler_rejected_nullish r q)"
  using assms by (auto simp: attempts_ok_def handler_rejected_nullish_def)

lemma waiting_ok_timer_pre:
  assumes "waiting_ok q" "(r, d) \<in> set (timers q)"
  shows "waiting_ok (q\<lparr> timers := remove1 (r, d) (timers q),
                 objs := (objs q)(r := (objs q r)\<lparr> delay := 0 \<rparr>),
                 jobs := r # jobs q \<rparr>)"
proof -
  have t: "t \<in> set (timers q)" if "t \<in> set (remove1 (r, d) (timers q))" for t
    using that set_remove1_subset[of "(r, d)" "timers q"] by auto
  have k: "x \<in> fst ` set (remove1 (r, d) (timers q))" if "x \<in> fst ` set (timers q)" "x \<noteq> r" for x
  proof -
    from that obtain b where "(x, b) \<in> set (timers q)" by auto
    then have "(x, b) \<in> set (remove1 (r, d) (timers q))" using that(2) by simp
    then show ?thesis by (auto simp: rev_image_eqI)
  qed
  have s: "status (objs q r) = ''waiting''" using assms by (auto simp: waiting_ok_def)
  have 3: "\<forall>x < nalloc q. x = r \<or> x \<in> set (jobs q) \<or>
      x \<in> fst ` set (remove1 (r, d) (timers q)) \<or> x \<in> set (awaiting q) \<or>
      x \<in> set (unhandled q) \<or>
      status (objs q x) = ''completed'' \<or> status (objs q x) = ''failed''"
    using assms(1) k unfolding waiting_ok_def by blast
  have 12: "(\<forall>x \<in> set (jobs q). status (objs q x) = ''waiting'') \<and>
     (\<forall>t \<in> set (remove1 (r, d) (timers q)). status (objs q (fst t)) = ''waiting'')"
    using assms(1) t unfolding waiting_ok_def by blast
  show ?thesis using s 3 12 unfolding waiting_ok_def by auto
qed

lemma waiting_ok_cleanup: "waiting_ok q \<Longrightarrow> waiting_ok (snd (cleanup maxAge now q))"
  by (simp add: waiting_ok_def cleanup_def Let_def)

lemma waiting_ok_process: "waiting_ok q \<Longrightarrow> waiting_ok (process t h q)"
  by (simp add: waiting_ok_def process_def)

lemma waiting_ok_enqueue:
  assumes "waiting_ok q" "refs_ok q" "opt_status opts = None"
  shows "waiting_ok (enqueue t d opts gid now q)"
proof -
  have nin: "nalloc q \<notin> set (jobs q)" "nalloc q \<notin> fst ` set (timers q)" "nalloc q \<notin> set (awaiting q)"
    "nalloc q \<notin> set (unhandled q)"
    using assms(2) unfolding refs_ok_def by auto
  have s: "status (new_job gid t d opts now) = ''waiting''"
    using assms(3) by (simp add: new_job_def spread_options_def job_defaults_def spread_key_def)
  show ?thesis using assms(1) nin s
    unfolding waiting_ok_def enqueue_def Let_def sort_jobs_def
    by (auto simp: rev_image_eqI less_Suc_eq)
qed

lemma waiting_ok_isProcessing [simp]: "waiting_ok (q\<lparr> isProcessing := b \<rparr>) = waiting_ok q"
  by (simp add: waiting_ok_def)

lemma attempts_ok_alt:
  "attempts_ok q \<longleftrightarrow> (\<forall>r < nalloc q. r \<in> set (unhandled q) \<or> attempts_fit (objs q r))"
  by (simp add: attempts_ok_def)

lemma attempts_fit_catch:
  assumes "attempts_fit (objs q r)" "status (objs q r) \<noteq> ''failed''"
  shows "attempts_fit (objs (catch_block r e now q) r)"
  using assms by (auto simp: attempts_fit_def catch_block_def Let_def)

lemma catch_block_other: "x \<noteq> r \<Longrightarrow> objs (catch_block r e now q) x = objs q x"
  by (simp add: catch_block_def Let_def)

lemma catch_block_nalloc [simp]: "nalloc (catch_block r e now q) = nalloc q"
  by (simp add: catch_block_def Let_def)

lemma catch_block_unhandled [simp]: "unhandled (catch_block r e now q) = unhandled q"
  by (simp add: catch_block_def Let_def)

lemma attempts_ok_catch:
  assumes "attempts_ok q" "status (objs q r) \<noteq> ''failed''"
  shows "attempts_ok (catch_block r e now q)"
  unfolding attempts_ok_alt
proof (intro allI impI)
  fix x assume "x < nalloc (catch_block r e now q)"
  then have x: "x \<in> set (unhandled q) \<or> attempts_fit (objs q x)"
    using assms(1) by (simp add: attempts_ok_alt)
  show "x \<in> set (unhandled (catch_block r e now q)) \<or> attempts_fit (objs (catch_block r e now q) x)"
  proof (cases "x = r")
    case True
    then show ?thesis using attempts_fit_catch[OF _ assms(2)] x by auto
  next
    case False
    then show ?thesis using x by (simp add: catch_block_other)
  qed
qed

lemma attempts_ok_upd:
  assumes "attempts_ok q" "attempts_fit (objs q r) \<Longrightarrow> attempts_fit j"
  shows "attempts_ok (q\<lparr> objs := (objs q)(r := j) \<rparr>)"
  using assms by (auto simp: attempts_ok_alt)

lemma attempts_ok_frame:
  "objs q' = objs q \<Longrightarrow> nalloc q' = nalloc q \<Longrightarrow> unhandled q' = unhandled q \<Longrightarrow>
   attempts_ok q' = attempts_ok q"
  by (simp add: attempts_ok_def)

lemma attempts_ok_processJob:
  assumes "attempts_ok q" "status (objs q r) = ''waiting''"
  shows "attempts_ok (processJob r now (q\<lparr> jobs := js \<rparr>))"
proof -
  let ?j = "(objs q r)\<lparr>status := ''processing'', startedAt := Some now\<rparr>"
  let ?q1 = "q\<lparr> objs := (objs q)(r := ?j) \<rparr>"
  have 1: "attempts_ok ?q1"
    by (rule attempts_ok_upd[OF assms(1)]) (use assms(2) in \<open>simp add: attempts_fit_def\<close>)
  show ?thesis
  proof (cases "handlers q (job_type (objs q r))")
    case (Some h)
    have "attempts_ok (processJob r now (q\<lparr> jobs := js \<rparr>)) = attempts_ok ?q1"
      by (rule attempts_ok_frame) (use Some in \<open>simp_all add: processJob_def Let_def\<close>)
    then show ?thesis using 1 by simp
  next
    case None
    let ?q2 = "q\<lparr> jobs := js, processing := processing q @ [r], objs := (objs q)(r := ?j) \<rparr>"
    have "attempts_ok ?q2 = attempts_ok ?q1" by (rule attempts_ok_frame) simp_all
    then have "attempts_ok (catch_block r (no_handler_error (job_type (objs q r))) now ?q2)"
      using 1 by (intro attempts_ok_catch) simp_all
    then show ?thesis using None by (simp add: processJob_def Let_def)
  qed
qed

lemma attempts_ok_settle:
  assumes "attempts_ok q" "status (objs q r) = ''processing''"
  shows "attempts_ok (success_block r res now (q\<lparr> awaiting := a \<rparr>))"
    and "attempts_ok (catch_block r e now (q\<lparr> awaiting := a \<rparr>))"
proof -
  have "attempts_ok (q\<lparr> awaiting := a \<rparr>) = attempts_ok q" by (rule attempts_ok_frame) simp_all
  then have 1: "attempts_ok (q\<lparr> awaiting := a \<rparr>)" using assms(1) by simp
  show "attempts_ok (catch_block r e now (q\<lparr> awaiting := a \<rparr>))"
    by (rule attempts_ok_catch[OF 1]) (use assms(2) in simp)
  let ?j = "(objs q r)\<lparr> status := ''completed'', result := Some res, completedAt := Some now \<rparr>"
  have 2: "attempts_ok (q\<lparr> objs := (objs q)(r := ?j) \<rparr>)"
    by (rule attempts_ok_upd[OF assms(1)]) (use assms(2) in \<open>simp add: attempts_fit_def\<close>)
  have "attempts_ok (success_block r res now (q\<lparr> awaiting := a \<rparr>))
        = attempts_ok (q\<lparr> objs := (objs q)(r := ?j) \<rparr>)"
    by (rule attempts_ok_frame) (simp_all add: success_block_def)
  then show "attempts_ok (success_block r res now (q\<lparr> awaiting := a \<rparr>))" using 2 by simp
qed

lemma attempts_ok_timer_pre:
  assumes "attempts_ok q"
  shows "attempts_ok (q\<lparr> timers := ts, objs := (objs q)(r := (objs q r)\<lparr> delay := 0 \<rparr>), jobs := js \<rparr>)"
proof -
  have 1: "attempts_ok (q\<lparr> objs := (objs q)(r := (objs q r)\<lparr> delay := 0 \<rparr>) \<rparr>)"
    by (rule attempts_ok_upd[OF assms]) (simp add: attempts_fit_def)
  have "attempts_ok (q\<lparr> timers := ts, objs := (objs q)(r := (objs q r)\<lparr> delay := 0 \<rparr>), jobs := js \<rparr>)
      = attempts_ok (q\<lparr> objs := (objs q)(r := (objs q r)\<lparr> delay := 0 \<rparr>) \<rparr>)"
    by (rule attempts_ok_frame) simp_all
  then show ?thesis using 1 by simp
qed

lemma attempts_ok_enqueue:
  assumes "attempts_ok q" "opt_status opts = None" "opt_attempts opts = None"
  shows "attempts_ok (enqueue t d opts gid now q)"
proof -
  have "attempts_fit (new_job gid t d opts now)"
    using assms(2,3)
    by (simp add: attempts_fit_def new_job_def spread_options_def job_defaults_def spread_key_def)
  then show ?thesis using assms(1)
    by (auto simp: attempts_ok_alt enqueue_def Let_def less_Suc_eq)
qed

lemma doc_inv_loop: "doc_inv q \<Longrightarrow> doc_inv (startProcessing_loop now q)"
proof (rule loop_rule[where I=doc_inv])
  fix q assume a: "doc_inv q" "jobs q \<noteq> []" "0 < delay (objs q (hd (jobs q)))"
  let ?q' = "q\<lparr> jobs := tl (jobs q),
                  timers := timers q @ [(hd (jobs q), delay (objs q (hd (jobs q))))] \<rparr>"
  have "attempts_ok ?q' = attempts_ok q" by (rule attempts_ok_frame) simp_all
  then show "doc_inv ?q'"
    using a refs_ok_defer[of q] marks_ok_defer[of q] ids_ok_defer[of q] waiting_ok_defer[of q]
    by (simp add: doc_inv_def inv_def bounded_def)
next
  fix q assume a: "doc_inv q" "jobs q \<noteq> []" "length (processing q) < concurrency q"
  then have "status (objs q (hd (jobs q))) = ''waiting''" by (simp add: doc_inv_def waiting_ok_def)
  then show "doc_inv (processJob (hd (jobs q)) now (q\<lparr> jobs := tl (jobs q) \<rparr>))"
    using a refs_ok_processJob[of q] marks_ok_processJob[of q] bounded_processJob[of q]
      ids_ok_processJob[of q] waiting_ok_processJob[of q] attempts_ok_processJob[of q]
    by (simp add: doc_inv_def inv_def)
qed

lemma doc_inv_startProcessing: "doc_inv q \<Longrightarrow> doc_inv (startProcessing now q)"
proof -
  have "attempts_ok (x\<lparr> isProcessing := b \<rparr>) = attempts_ok x" for x b
    by (rule attempts_ok_frame) simp_all
  then have "doc_inv (x\<lparr> isProcessing := b \<rparr>) = doc_inv x" for x b
    by (simp add: doc_inv_def)
  then show "doc_inv q \<Longrightarrow> doc_inv (startProcessing now q)"
    by (simp add: startProcessing_def doc_inv_loop)
qed

lemma doc_inv_step:
  assumes "doc_inv q" "documented q e" "step e q = Some q'"
  shows "doc_inv q'"
proof (cases e)
  case (Process t h)
  have "attempts_ok (process t h q) = attempts_ok q"
    by (rule attempts_ok_frame) (simp_all add: process_def)
  then show ?thesis using Process assms inv_process ids_ok_process waiting_ok_process
    by (auto simp: doc_inv_def)
next
  case (Add t d opts gid now)
  then have o: "opt_id opts = None" "opt_status opts = None" "opt_attempts opts = None"
    "gid \<notin> set (used_ids q)"
    using assms(2) by (auto simp: documented_options_def)
  have "doc_inv (enqueue t d opts gid now q)"
    using assms(1) o inv_enqueue ids_ok_enqueue waiting_ok_enqueue attempts_ok_enqueue
    by (simp add: doc_inv_def inv_def)
  then show ?thesis using Add assms(3) doc_inv_startProcessing by (auto simp: add_def)
next
  case (TimerFired r d now)
  then have r: "(r, d) \<in> set (timers q)" using assms(3) by (auto split: if_splits)
  have "doc_inv (q\<lparr> timers := remove1 (r, d) (timers q),
                 objs := (objs q)(r := (objs q r)\<lparr> delay := 0 \<rparr>),
                 jobs := r # jobs q \<rparr>)"
    using assms(1) r inv_timer_pre[of q r d] ids_ok_timer_pre[of q] waiting_ok_timer_pre[of q r d]
      attempts_ok_timer_pre[of q]
    by (simp add: doc_inv_def)
  then show ?thesis using TimerFired assms(3) r doc_inv_startProcessing
    by (auto simp: timer_fired_def)
next
  case (Resolved r res now)
  then have r: "r \<in> set (awaiting q)" using assms(3) by (auto split: if_splits)
  then have s: "status (objs q r) = ''processing''"
    using assms(1) by (simp add: doc_inv_def inv_def marks_ok_def)
  have "doc_inv (success_block r res now (q\<lparr> awaiting := remove1 r (awaiting q) \<rparr>))"
    using assms(1) r s refs_ok_success_pre marks_ok_success_pre bounded_settle(1)
      ids_ok_settle(1) waiting_ok_settle(1) attempts_ok_settle(1)
    by (simp add: doc_inv_def inv_def)
  then show ?thesis using Resolved assms(3) r doc_inv_startProcessing
    by (auto simp: handler_resolved_def)
next
  case (Rejected r err now)
  then have r: "r \<in> set (awaiting q)" using assms(3) by (auto split: if_splits)
  then have s: "status (objs q r) = ''processing''"
    using assms(1) by (simp add: doc_inv_def inv_def marks_ok_def)
  have "doc_inv (catch_block r err now (q\<lparr> awaiting := remove1 r (awaiting q) \<rparr>))"
    using assms(1) r s refs_ok_catch_pre marks_ok_catch_pre bounded_settle(2)
      ids_ok_settle(2) waiting_ok_settle(2) attempts_ok_settle(2)
    by (simp add: doc_inv_def inv_def)
  then show ?thesis using Rejected assms(3) r doc_inv_startProcessing
    by (auto simp: handler_rejected_def)
next
  case (RejectedNullish r)
  then have r: "r \<in> set (awaiting q)" using assms(3) by (auto split: if_splits)
  have "doc_inv (handler_rejected_nullish r q)"
    using assms(1) r inv_nullish ids_ok_nullish waiting_ok_nullish attempts_ok_nullish
    by (simp add: doc_inv_def inv_def)
  then show ?thesis using RejectedNullish assms(3) r by simp
next
  case (Cleanup maxAge now)
  have "attempts_ok (snd (cleanup maxAge now q)) = attempts_ok q"
    by (rule attempts_ok_frame) (simp_all add: cleanup_def Let_def)
  then show ?thesis using Cleanup assms inv_cleanup ids_ok_cleanup waiting_ok_cleanup
    by (auto simp: doc_inv_def)
qed

lemma reach_doc_inv: "reach documented q \<Longrightarrow> doc_inv q"
proof (induction rule: reach.induct)
  case (reach_new n c)
  show ?case using inv_new_queue
    by (simp add: doc_inv_def ids_ok_def used_ids_def waiting_ok_def attempts_ok_def new_queue_def)
next
  case (reach_step q e q')
  then show ?case using doc_inv_step by blast
qed

lemma reach_documented_run:
  "reach documented q \<Longrightarrow> documented_run es q \<Longrightarrow> run es q = Some q' \<Longrightarrow> reach documented q'"
proof (induction es arbitrary: q)
  case Nil
  then show ?case by simp
next
  case (Cons e es)
  then obtain q1 where s: "step e q = Some q1" and r: "run es q1 = Some q'"
    and d: "documented q e" "documented_run es q1"
    by (auto split: option.splits)
  have "reach documented q1" using reach_step[OF Cons.prems(1) d(1) s] .
  then show ?case using Cons.IH d(2) r by blast
qed

lemma run_doc_inv:
  "run es (new_queue n c) = Some q \<Longrightarrow> documented_run es (new_queue n c) \<Longrightarrow> doc_inv q"
  using reach_doc_inv[OF reach_documented_run[OF reach_new]] by blast

lemma find_unique:
  assumes "\<forall>x \<in> set xs. P x \<longleftrightarrow> x = r"
  shows "find P xs = (if r \<in> set xs then Some r else None)"
  using assms by (induction xs) auto

lemma doc_inv_processing:
  "doc_inv q \<Longrightarrow> set (processing q) = set (awaiting q) \<union> set (unhandled q)"
  by (auto simp: doc_inv_def inv_def refs_ok_def ids_ok_def)

lemma doc_inv_arrays:
  assumes "doc_inv q"
  shows "distinct (jobs q @ processing q @ completed q @ failed q)"
    and "\<forall>x \<in> set (jobs q @ processing q @ completed q @ failed q). x < nalloc q"
    and "\<forall>t \<in> set (timers q). fst t \<notin> set (jobs q @ processing q @ completed q @ failed q)"
proof -
  have r: "refs_ok q" and p: "set (processing q) = set (awaiting q) \<union> set (unhandled q)"
    using assms doc_inv_processing by (auto simp: doc_inv_def inv_def)
  show "distinct (jobs q @ processing q @ completed q @ failed q)"
    using r p unfolding refs_ok_def by auto
  show "\<forall>x \<in> set (jobs q @ processing q @ completed q @ failed q). x < nalloc q"
    using r p unfolding refs_ok_def by auto
  show "\<forall>t \<in> set (timers q). fst t \<notin> set (jobs q @ processing q @ completed q @ failed q)"
    using r p unfolding refs_ok_def by auto
qed

lemma doc_inv_status:
  assumes "doc_inv q" "r < nalloc q"
  shows "(r \<in> set (jobs q) \<longrightarrow> status (objs q r) = ''waiting'') \<and>
         (r \<in> fst ` set (timers q) \<longrightarrow> status (objs q r) = ''waiting'') \<and>
         (r \<in> set (processing q) \<longrightarrow> status (objs q r) = ''processing'') \<and>
         (r \<in> set (completed q) \<longrightarrow> status (objs q r) = ''completed'') \<and>
         (r \<in> set (failed q) \<longrightarrow> status (objs q r) = ''failed'')"
  using assms doc_inv_processing[OF assms(1)]
  unfolding doc_inv_def inv_def marks_ok_def waiting_ok_def by auto

lemma doc_inv_held:
  assumes "doc_inv q" "r < nalloc q"
  shows "r \<in> set (jobs q) \<or> r \<in> fst ` set (timers q) \<or> r \<in> set (processing q) \<or>
         status (objs q r) = ''completed'' \<or> status (objs q r) = ''failed''"
  using assms doc_inv_processing[OF assms(1)]
  unfolding doc_inv_def waiting_ok_def by auto

lemma doc_inv_getJob:
  assumes "doc_inv q" "r < nalloc q"
  shows "getJob q (job_id (objs q r)) =
         (if r \<in> set (jobs q @ processing q @ completed q @ failed q) then Some r else None)"
  unfolding getJob_def
proof (rule find_unique, rule ballI)
  fix x assume "x \<in> set (jobs q @ processing q @ completed q @ failed q)"
  then have x: "x < nalloc q" using doc_inv_arrays(2)[OF assms(1)] by blast
  have d: "distinct (used_ids q)" using assms(1) by (simp add: doc_inv_def ids_ok_def)
  show "(job_id (objs q x) = job_id (objs q r)) = (x = r)"
    using id_neq[OF d x assms(2)] by auto
qed

lemma untouched_refl: "r \<notin> set (jobs q) \<Longrightarrow> untouched q r q"
  by (simp add: untouched_def)

lemma untouched_defer:
  assumes "untouched q r x" "jobs x \<noteq> []"
  shows "untouched q r (x\<lparr> jobs := tl (jobs x), timers := timers x @ [(hd (jobs x), d)] \<rparr>)"
proof -
  obtain a rest where j: "jobs x = a # rest" using assms(2) by (cases "jobs x") auto
  show ?thesis using assms(1) unfolding untouched_def j by auto
qed

lemma untouched_processJob:
  assumes "untouched q r x" "jobs x \<noteq> []"
  shows "untouched q r (processJob (hd (jobs x)) now (x\<lparr> jobs := tl (jobs x) \<rparr>))"
proof -
  obtain a rest where j: "jobs x = a # rest" using assms(2) by (cases "jobs x") auto
  have ne: "a \<noteq> r" "r \<notin> set rest" using assms(1) unfolding untouched_def j by auto
  show ?thesis
  proof (cases "handlers x (job_type (objs x a))")
    case (Some h)
    then show ?thesis using assms(1) ne unfolding untouched_def j processJob_def Let_def by auto
  next
    case None
    then show ?thesis using assms(1) ne
      unfolding untouched_def j processJob_def catch_block_def Let_def by auto
  qed
qed

lemma untouched_loop:
  assumes "r \<notin> set (jobs q)"
  shows "untouched q r (startProcessing_loop now q)"
  by (rule loop_rule[where I="untouched q r"])
    (use assms untouched_refl untouched_defer untouched_processJob in auto)

lemma untouched_startProcessing:
  assumes "r \<notin> set (jobs q)"
  shows "untouched q r (startProcessing now q)"
proof -
  have "untouched (q\<lparr> isProcessing := True \<rparr>) r (startProcessing_loop now (q\<lparr> isProcessing := True \<rparr>))"
    by (rule untouched_loop) (use assms in simp)
  then show ?thesis using assms by (simp add: startProcessing_def untouched_def)
qed

lemma retired_untouched: "retired q r \<Longrightarrow> untouched q r x \<Longrightarrow> retired x r \<and> objs x r = objs q r"
  by (simp add: retired_def untouched_def)

lemma step_retired:
  assumes "retired q r" "step e q = Some q'"
  shows "retired q' r \<and> objs q' r = objs q r"
proof (cases e)
  case (Process t h)
  then show ?thesis using assms by (auto simp: retired_def process_def)
next
  case (Add t d opts gid now)
  let ?e = "enqueue t d opts gid now q"
  have e: "retired ?e r" "objs ?e r = objs q r"
    using assms(1) by (auto simp: retired_def enqueue_def Let_def sort_jobs_def)
  then have "untouched ?e r (startProcessing now ?e)"
    by (intro untouched_startProcessing) (simp add: retired_def)
  then show ?thesis using Add assms(2) retired_untouched[OF e(1)] e(2) by (auto simp: add_def)
next
  case (TimerFired a d now)
  then have a: "(a, d) \<in> set (timers q)" using assms(2) by (auto split: if_splits)
  then have ne: "a \<noteq> r" using assms(1) by (auto simp: retired_def rev_image_eqI)
  let ?p = "q\<lparr> timers := remove1 (a, d) (timers q),
               objs := (objs q)(a := (objs q a)\<lparr> delay := 0 \<rparr>), jobs := a # jobs q \<rparr>"
  have p: "retired ?p r" "objs ?p r = objs q r"
    using assms(1) ne fst_set_remove1[of r "(a, d)" "timers q"] by (auto simp: retired_def)
  then have "untouched ?p r (startProcessing now ?p)"
    by (intro untouched_startProcessing) (simp add: retired_def)
  then show ?thesis using TimerFired assms(2) a retired_untouched[OF p(1)] p(2)
    by (auto simp: timer_fired_def)
next
  case (Resolved a res now)
  then have a: "a \<in> set (awaiting q)" using assms(2) by (auto split: if_splits)
  then have ne: "a \<noteq> r" using assms(1) by (auto simp: retired_def)
  let ?p = "success_block a res now (q\<lparr> awaiting := remove1 a (awaiting q) \<rparr>)"
  have p: "retired ?p r" "objs ?p r = objs q r"
    using assms(1) ne notin_set_remove1[of r "awaiting q" a]
    by (auto simp: retired_def success_block_def)
  then have "untouched ?p r (startProcessing now ?p)"
    by (intro untouched_startProcessing) (simp add: retired_def)
  then show ?thesis using Resolved assms(2) a retired_untouched[OF p(1)] p(2)
    by (auto simp: handler_resolved_def)
next
  case (Rejected a err now)
  then have a: "a \<in> set (awaiting q)" using assms(2) by (auto split: if_splits)
  then have ne: "a \<noteq> r" using assms(1) by (auto simp: retired_def)
  let ?p = "catch_block a err now (q\<lparr> awaiting := remove1 a (awaiting q) \<rparr>)"
  have p: "retired ?p r" "objs ?p r = objs q r"
    using assms(1) ne notin_set_remove1[of r "awaiting q" a]
    by (auto simp: retired_def catch_block_def Let_def)
  then have "untouched ?p r (startProcessing now ?p)"
    by (intro untouched_startProcessing) (simp add: retired_def)
  then show ?thesis using Rejected assms(2) a retired_untouched[OF p(1)] p(2)
    by (auto simp: handler_rejected_def)
next
  case (RejectedNullish a)
  then have a: "a \<in> set (awaiting q)" using assms(2) by (auto split: if_splits)
  then have ne: "a \<noteq> r" using assms(1) by (auto simp: retired_def)
  show ?thesis using RejectedNullish assms a ne notin_set_remove1[of r "awaiting q" a]
    by (auto simp: retired_def handler_rejected_nullish_def)
next
  case (Cleanup maxAge now)
  then show ?thesis using assms by (auto simp: retired_def cleanup_def Let_def)
qed

lemma run_retired:
  "retired q r \<Longrightarrow> run es q = Some q' \<Longrightarrow> retired q' r \<and> objs q' r = objs q r"
proof (induction es arbitrary: q)
  case Nil
  then show ?case by simp
next
  case (Cons e es)
  then obtain q1 where s: "step e q = Some q1" and r: "run es q1 = Some q'"
    by (auto split: option.splits)
  from step_retired[OF Cons.prems(1) s] Cons.IH[OF _ r] show ?case by simp
qed

lemma run_append: "run (es @ es') q = (case run es q of None \<Rightarrow> None | Some q1 \<Rightarrow> run es' q1)"
  by (induction es arbitrary: q) (auto split: option.splits)

lemma run_inv: "inv q \<Longrightarrow> run es q = Some q' \<Longrightarrow> inv q'"
proof (induction es arbitrary: q)
  case Nil
  then show ?case by simp
next
  case (Cons e es)
  then show ?case using inv_step by (auto split: option.splits)
qed


lemma rejected_retry:
  assumes "doc_inv q" "r \<in> set (processing q)"
    "attempts (objs q r) + 1 < maxAttempts (objs q r)" "\<not> isProcessing q"
  shows "objs (handler_rejected r e now q) r =
           (objs q r)\<lparr> attempts := attempts (objs q r) + 1, error := message e,
                        errorStack := stack e,
                        delay := 2 ^ (attempts (objs q r) + 1) * 1000, status := ''waiting'' \<rparr>"
    and "(r, 2 ^ (attempts (objs q r) + 1) * 1000) \<in> set (timers (handler_rejected r e now q))"
    and "r \<notin> set (jobs (handler_rejected r e now q))"
    and "r \<notin> set (awaiting (handler_rejected r e now q))"
proof -
  let ?d = "2 ^ (attempts (objs q r) + 1) * 1000 :: int"
  let ?j = "(objs q r)\<lparr> attempts := attempts (objs q r) + 1, error := message e,
                        errorStack := stack e, delay := ?d, status := ''waiting'' \<rparr>"
  let ?p = "(catch_block r e now (q\<lparr> awaiting := remove1 r (awaiting q) \<rparr>))\<lparr> isProcessing := True \<rparr>"
  have ro: "refs_ok q" and b: "bounded q"
    using assms(1) by (simp_all add: doc_inv_def inv_def)
  have rp: "r \<in> set (processing q)" by (rule assms(2))
  have "distinct (awaiting q)" using ro by (simp add: refs_ok_def)
  then have ra: "r \<notin> set (remove1 r (awaiting q))" by simp
  have "r \<in> set (awaiting q) \<union> set (unhandled q)" using ro rp unfolding refs_ok_def by blast
  then have nj: "r \<notin> set (jobs q)" using ro unfolding refs_ok_def by auto
  have p: "jobs ?p = r # jobs q" "objs ?p r = ?j" "timers ?p = timers q"
    "awaiting ?p = remove1 r (awaiting q)" "concurrency ?p = concurrency q"
    "processing ?p = without_id (objs q) (job_id (objs q r)) (processing q)"
    using assms(3) by (auto simp: catch_block_def Let_def)
  have "length (filter (\<lambda>x. job_id (objs q x) \<noteq> job_id (objs q r)) (processing q))
        < length (processing q)"
    by (rule length_filter_less[OF rp]) simp
  then have len: "length (processing ?p) < concurrency ?p"
    using b unfolding p by (simp add: without_id_def bounded_def)
  let ?t = "?p\<lparr> jobs := jobs q, timers := timers q @ [(r, ?d)] \<rparr>"
  have pos: "0 < ?d" by simp
  have 1: "startProcessing_loop now ?p = startProcessing_loop now ?t"
    by (subst startProcessing_loop.simps) (use p len pos in simp)
  have rj: "r \<notin> set (jobs ?t)" using nj by simp
  have u: "untouched ?t r (startProcessing_loop now ?t)" by (rule untouched_loop[OF rj])
  have t: "objs ?t r = ?j" "(r, ?d) \<in> set (timers ?t)" "r \<notin> set (awaiting ?t)"
    using p ra by auto
  have h: "handler_rejected r e now q = (startProcessing_loop now ?t)\<lparr> isProcessing := False \<rparr>"
    using assms(4) 1 by (simp add: handler_rejected_def startProcessing_def catch_block_def Let_def)
  show "objs (handler_rejected r e now q) r = ?j"
    using u t(1) by (simp add: h untouched_def)
  show "(r, ?d) \<in> set (timers (handler_rejected r e now q))"
    using u t(2) unfolding h untouched_def by auto
  show "r \<notin> set (jobs (handler_rejected r e now q))"
    using u by (simp add: h untouched_def)
  show "r \<notin> set (awaiting (handler_rejected r e now q))"
    using u t(3) by (simp add: h untouched_def)
qed

lemma resolved_final:
  assumes "inv q" "r \<in> set (awaiting q)"
  shows "objs (handler_resolved r res now q) r =
           (objs q r)\<lparr> status := ''completed'', result := Some res, completedAt := Some now \<rparr>"
    and "r \<in> set (completed (handler_resolved r res now q))"
    and "retired (handler_resolved r res now q) r"
proof -
  let ?p = "success_block r res now (q\<lparr> awaiting := remove1 r (awaiting q) \<rparr>)"
  have ro: "refs_ok q" using assms(1) by (simp add: inv_def)
  note st = refs_ok_settle[OF ro assms(2)]
  have p: "r \<notin> set (jobs ?p)" "r \<in> set (completed ?p)" "r \<notin> fst ` set (timers ?p)"
    "r \<notin> set (awaiting ?p)" "nalloc ?p = nalloc q"
    "objs ?p r = (objs q r)\<lparr> status := ''completed'', result := Some res, completedAt := Some now \<rparr>"
    using st(2) by (auto simp: success_block_def)
  have u: "untouched ?p r (startProcessing now ?p)"
    by (rule untouched_startProcessing[OF p(1)])
  show "objs (handler_resolved r res now q) r =
           (objs q r)\<lparr> status := ''completed'', result := Some res, completedAt := Some now \<rparr>"
    using u p(6) by (simp add: handler_resolved_def untouched_def)
  show "r \<in> set (completed (handler_resolved r res now q))"
    using u p(2) by (simp add: handler_resolved_def untouched_def)
  show "retired (handler_resolved r res now q) r"
    using u p st(5) by (simp add: handler_resolved_def untouched_def retired_def)
qed

lemma handled_processJob:
  assumes "handled q r x" "handlers q (job_type (objs q r)) \<noteq> None"
  shows "handled q r (processJob a now (x\<lparr> jobs := js \<rparr>))"
proof (cases "a = r")
  case True
  then show ?thesis using assms
    by (auto simp: handled_def processJob_def Let_def split: option.splits)
next
  case False
  then show ?thesis using assms(1)
    by (auto simp: handled_def processJob_def catch_block_def Let_def split: option.splits)
qed

lemma handled_loop:
  assumes "handlers q (job_type (objs q r)) \<noteq> None"
  shows "handled q r (startProcessing_loop now q)"
  by (rule loop_rule[where I="handled q r"])
    (use assms handled_processJob in \<open>auto simp: handled_def\<close>)

lemma handled_startProcessing:
  assumes "handlers q (job_type (objs q r)) \<noteq> None"
  shows "handled q r (startProcessing now q)"
proof -
  have "handled (q\<lparr> isProcessing := True \<rparr>) r (startProcessing_loop now (q\<lparr> isProcessing := True \<rparr>))"
    by (rule handled_loop) (use assms in simp)
  then show ?thesis by (simp add: startProcessing_def handled_def)
qed

lemma handled_trans:
  "handled q r x \<Longrightarrow> handlers q (job_type (objs q r)) \<noteq> None \<Longrightarrow>
   handlers x (job_type (objs x r)) \<noteq> None"
  by (simp add: handled_def)

lemma step_attempts:
  assumes "r < nalloc q" "handlers q (job_type (objs q r)) \<noteq> None" "step ev q = Some q'"
  shows "attempts (objs q' r) = attempts (objs q r) + (if is_rejection r ev then 1 else 0) \<and>
         r < nalloc q' \<and> handlers q' (job_type (objs q' r)) \<noteq> None \<and>
         maxAttempts (objs q' r) = maxAttempts (objs q r) \<and>
         job_id (objs q' r) = job_id (objs q r)"
proof (cases ev)
  case (Process t h)
  then show ?thesis using assms by (auto simp: process_def)
next
  case (Add t d opts gid now)
  let ?p = "enqueue t d opts gid now q"
  have p: "objs ?p r = objs q r" "handlers ?p = handlers q" "nalloc ?p = Suc (nalloc q)"
    using assms(1) by (auto simp: enqueue_def Let_def)
  then have "handled ?p r (startProcessing now ?p)"
    by (intro handled_startProcessing) (use assms(2) in simp)
  then show ?thesis using Add assms p by (auto simp: add_def handled_def)
next
  case (TimerFired a d now)
  let ?p = "q\<lparr> timers := remove1 (a, d) (timers q),
               objs := (objs q)(a := (objs q a)\<lparr> delay := 0 \<rparr>), jobs := a # jobs q \<rparr>"
  have p: "attempts (objs ?p r) = attempts (objs q r)" "job_type (objs ?p r) = job_type (objs q r)"
    "handlers ?p = handlers q" "nalloc ?p = nalloc q"
    "maxAttempts (objs ?p r) = maxAttempts (objs q r)" "job_id (objs ?p r) = job_id (objs q r)"
    by auto
  then have "handled ?p r (startProcessing now ?p)"
    by (intro handled_startProcessing) (use assms(2) in simp)
  then show ?thesis using TimerFired assms p
    by (auto simp: timer_fired_def handled_def split: if_splits)
next
  case (Resolved a res now)
  let ?p = "success_block a res now (q\<lparr> awaiting := remove1 a (awaiting q) \<rparr>)"
  have p: "attempts (objs ?p r) = attempts (objs q r)" "job_type (objs ?p r) = job_type (objs q r)"
    "handlers ?p = handlers q" "nalloc ?p = nalloc q"
    "maxAttempts (objs ?p r) = maxAttempts (objs q r)" "job_id (objs ?p r) = job_id (objs q r)"
    by (auto simp: success_block_def)
  then have "handled ?p r (startProcessing now ?p)"
    by (intro handled_startProcessing) (use assms(2) in simp)
  then show ?thesis using Resolved assms p
    by (auto simp: handler_resolved_def handled_def split: if_splits)
next
  case (Rejected a err now)
  let ?p = "catch_block a err now (q\<lparr> awaiting := remove1 a (awaiting q) \<rparr>)"
  have p: "attempts (objs ?p r) = attempts (objs q r) + (if a = r then 1 else 0)"
    "job_type (objs ?p r) = job_type (objs q r)"
    "handlers ?p = handlers q" "nalloc ?p = nalloc q"
    "maxAttempts (objs ?p r) = maxAttempts (objs q r)" "job_id (objs ?p r) = job_id (objs q r)"
    by (auto simp: catch_block_def Let_def)
  then have "handled ?p r (startProcessing now ?p)"
    by (intro handled_startProcessing) (use assms(2) in simp)
  then show ?thesis using Rejected assms p
    by (auto simp: handler_rejected_def handled_def split: if_splits)
next
  case (RejectedNullish a)
  then show ?thesis using assms
    by (auto simp: handler_rejected_nullish_def split: if_splits)
next
  case (Cleanup maxAge now)
  then show ?thesis using assms by (auto simp: cleanup_def Let_def)
qed

lemma run_attempts:
  assumes "r < nalloc q" "handlers q (job_type (objs q r)) \<noteq> None" "run es q = Some q'"
  shows "attempts (objs q' r) = attempts (objs q r) + rejections r es \<and>
         maxAttempts (objs q' r) = maxAttempts (objs q r) \<and>
         job_id (objs q' r) = job_id (objs q r)"
  using assms
proof (induction es arbitrary: q)
  case Nil
  then show ?case by (simp add: rejections_def)
next
  case (Cons e es)
  then obtain q1 where s: "step e q = Some q1" and r: "run es q1 = Some q'"
    by (auto split: option.splits)
  note a = step_attempts[OF Cons.prems(1,2) s]
  from Cons.IH[OF _ _ r] a show ?case by (simp add: rejections_def)
qed

lemma run_quiet:
  "run es (new_queue n c) = Some q \<Longrightarrow> quiet q"
  using reach_inv[OF run_reach] by blast

lemma run_extend:
  "run es q0 = Some q \<Longrightarrow> run es' q = Some q' \<Longrightarrow> run (es @ es') q0 = Some q'"
  by (simp add: run_append)





lemma loop_unhandled: "unhandled (startProcessing_loop now q) = unhandled q"
  by (rule loop_rule[where I="\<lambda>x. unhandled x = unhandled q"])
    (auto simp: processJob_def catch_block_def Let_def split: option.splits)



lemma insort_key_front: "\<forall>y \<in> set ys. f a \<le> f y \<Longrightarrow> insort_key f a ys = a # ys"
  by (cases ys) auto

lemma foldr_insort_snoc:
  assumes "sorted (map f xs)"
  shows "foldr (insort_key f) xs [r] =
         filter (\<lambda>x. f x \<le> f r) xs @ r # filter (\<lambda>x. \<not> f x \<le> f r) xs"
  using assms
proof (induction xs)
  case Nil
  then show ?case by simp
next
  case (Cons a as)
  then have le: "\<forall>y \<in> set as. f a \<le> f y" and s: "sorted (map f as)" by auto
  note IH = Cons.IH[OF s]
  show ?case
  proof (cases "f a \<le> f r")
    case True
    have "\<forall>y \<in> set (filter (\<lambda>x. f x \<le> f r) as @ r # filter (\<lambda>x. \<not> f x \<le> f r) as). f a \<le> f y"
      using le True by auto
    then show ?thesis using IH True by (simp add: insort_key_front)
  next
    case False
    then have "\<forall>y \<in> set as. \<not> f y \<le> f r" using le by force
    then have "filter (\<lambda>x. f x \<le> f r) as = []" "filter (\<lambda>x. \<not> f x \<le> f r) as = as"
      by (simp_all add: filter_empty_conv)
    then show ?thesis using IH False le by (simp add: insort_key_front)
  qed
qed

lemma sort_key_snoc:
  "sorted (map f xs) \<Longrightarrow>
   sort_key f (xs @ [r]) = filter (\<lambda>x. f x \<le> f r) xs @ r # filter (\<lambda>x. \<not> f x \<le> f r) xs"
  using foldr_insort_snoc[of f xs r] by (simp add: sort_key_def)

lemma fifo_sorted_imp_sorted: "fifo_sorted os xs \<Longrightarrow> sorted (map (\<lambda>r. - priority (os r)) xs)"
  unfolding fifo_sorted_def sorted_map
  by (rule sorted_wrt_mono_rel[of xs "before os"]) (auto simp: before_def)

lemma fifo_sorted_sort_jobs:
  assumes "fifo_sorted os xs" "\<forall>x \<in> set xs. x < r"
  shows "fifo_sorted os (sort_jobs os (xs @ [r]))"
proof -
  let ?f = "\<lambda>r. - priority (os r)"
  have e: "sort_jobs os (xs @ [r]) =
           filter (\<lambda>x. ?f x \<le> ?f r) xs @ r # filter (\<lambda>x. \<not> ?f x \<le> ?f r) xs"
    unfolding sort_jobs_def by (rule sort_key_snoc[OF fifo_sorted_imp_sorted[OF assms(1)]])
  have 1: "sorted_wrt (before os) (filter (\<lambda>x. ?f x \<le> ?f r) xs)"
    and 2: "sorted_wrt (before os) (filter (\<lambda>x. \<not> ?f x \<le> ?f r) xs)"
    using assms(1) by (simp_all add: fifo_sorted_def sorted_wrt_filter)
  show ?thesis unfolding e fifo_sorted_def
    using 1 2 assms(2) by (auto simp: sorted_wrt_append before_def)
qed

lemma fifo_sorted_cong:
  "(\<And>x. x \<in> set xs \<Longrightarrow> priority (os' x) = priority (os x)) \<Longrightarrow>
   fifo_sorted os' xs = fifo_sorted os xs"
  unfolding fifo_sorted_def
  by (rule iffI; rule sorted_wrt_mono_rel[of xs]) (auto simp: before_def)

lemma dispatched_refl: "dispatched x x"
  unfolding dispatched_def by (auto intro: exI[of _ 0])

lemma dispatched_processJob:
  assumes "dispatched x y" "jobs y \<noteq> []"
    "\<forall>r \<in> set (jobs x). handlers x (job_type (objs x r)) \<noteq> None"
  shows "dispatched x (processJob (hd (jobs y)) now (y\<lparr> jobs := tl (jobs y) \<rparr>))"
proof -
  from assms(1) obtain k where k: "k \<le> length (jobs x)" "jobs y = drop k (jobs x)"
    "processing y = processing x @ take k (jobs x)"
    unfolding dispatched_def by blast
  have lt: "k < length (jobs x)" using k(2) assms(2) by (cases "k < length (jobs x)") auto
  then have hd: "hd (jobs y) = jobs x ! k" using k(2) by (simp add: hd_drop_conv_nth)
  then have "hd (jobs y) \<in> set (jobs x)" using lt by simp
  then have "handlers y (job_type (objs y (hd (jobs y)))) \<noteq> None"
    using assms(1,3) by (simp add: dispatched_def)
  then obtain h where h: "handlers y (job_type (objs y (hd (jobs y)))) = Some h" by auto
  let ?y = "processJob (hd (jobs y)) now (y\<lparr> jobs := tl (jobs y) \<rparr>)"
  have j: "jobs ?y = drop (Suc k) (jobs x)"
    using h k(2) by (simp add: processJob_def Let_def drop_Suc tl_drop)
  have p: "processing ?y = processing x @ take (Suc k) (jobs x)"
    using h k(3) hd lt by (simp add: processJob_def Let_def take_Suc_conv_app_nth)
  have "Suc k \<le> length (jobs x)" using lt by simp
  then have 1: "\<exists>k \<le> length (jobs x). jobs ?y = drop k (jobs x) \<and>
        processing ?y = processing x @ take k (jobs x)"
    using j p by blast
  have 2: "timers ?y = timers x \<and> handlers ?y = handlers x \<and>
     (\<forall>r. priority (objs ?y r) = priority (objs x r) \<and> delay (objs ?y r) = delay (objs x r) \<and>
          job_type (objs ?y r) = job_type (objs x r))"
    using h assms(1) by (simp add: processJob_def Let_def dispatched_def)
  show ?thesis unfolding dispatched_def using 1 2 by blast
qed

lemma dispatched_loop:
  assumes "\<forall>r \<in> set (jobs x). delay (objs x r) \<le> 0 \<and> handlers x (job_type (objs x r)) \<noteq> None"
  shows "dispatched x (startProcessing_loop now x)"
proof (rule loop_rule[where I="dispatched x"])
  show "dispatched x x" by (rule dispatched_refl)
next
  fix y assume y: "dispatched x y" "jobs y \<noteq> []" "0 < delay (objs y (hd (jobs y)))"
  from y(1) obtain k where k: "jobs y = drop k (jobs x)" unfolding dispatched_def by blast
  have "hd (jobs y) \<in> set (jobs y)" using y(2) by simp
  then have "hd (jobs y) \<in> set (jobs x)" using k in_set_dropD by metis
  then have "delay (objs y (hd (jobs y))) \<le> 0" using assms y(1) by (simp add: dispatched_def)
  then show "dispatched x (y\<lparr> jobs := tl (jobs y),
                timers := timers y @ [(hd (jobs y), delay (objs y (hd (jobs y))))] \<rparr>)"
    using y(3) by simp
next
  fix y assume "dispatched x y" "jobs y \<noteq> []"
  then show "dispatched x (processJob (hd (jobs y)) now (y\<lparr> jobs := tl (jobs y) \<rparr>))"
    using dispatched_processJob assms by blast
qed

lemma dispatched_startProcessing:
  assumes "\<forall>r \<in> set (jobs x). delay (objs x r) \<le> 0 \<and> handlers x (job_type (objs x r)) \<noteq> None"
  shows "dispatched x (startProcessing now x)"
proof (cases "isProcessing x")
  case True
  then show ?thesis by (simp add: startProcessing_def dispatched_refl)
next
  case False
  have "dispatched (x\<lparr> isProcessing := True \<rparr>) (startProcessing_loop now (x\<lparr> isProcessing := True \<rparr>))"
    by (rule dispatched_loop) (use assms in simp)
  then show ?thesis using False by (simp add: startProcessing_def dispatched_def)
qed

lemma calm_inv_dispatched:
  assumes "calm_inv x" "dispatched x y"
  shows "calm_inv y"
proof -
  from assms(2) obtain k where k: "jobs y = drop k (jobs x)" unfolding dispatched_def by blast
  have sub: "set (jobs y) \<subseteq> set (jobs x)" unfolding k by (rule set_drop_subset)
  have "fifo_sorted (objs x) (jobs y)"
    using assms(1) unfolding k calm_inv_def fifo_sorted_def by (simp add: sorted_wrt_drop)
  moreover have "fifo_sorted (objs y) (jobs y) = fifo_sorted (objs x) (jobs y)"
    by (rule fifo_sorted_cong) (use assms(2) in \<open>simp add: dispatched_def\<close>)
  ultimately show ?thesis using assms sub unfolding calm_inv_def dispatched_def by auto
qed

lemma dispatched_order:
  assumes "dispatched x y" "fifo_sorted (objs x) (jobs x)"
    "a \<in> set (processing y)" "a \<notin> set (processing x)" "b \<in> set (jobs y)"
  shows "before (objs y) a b"
proof -
  from assms(1) obtain k where k: "jobs y = drop k (jobs x)"
    "processing y = processing x @ take k (jobs x)"
    unfolding dispatched_def by blast
  have a: "a \<in> set (take k (jobs x))" using assms(3,4) k(2) by auto
  have b: "b \<in> set (drop k (jobs x))" using assms(5) k(1) by simp
  have "sorted_wrt (before (objs x)) (take k (jobs x) @ drop k (jobs x))"
    using assms(2) by (simp add: fifo_sorted_def)
  then have "before (objs x) a b" using a b unfolding sorted_wrt_append by blast
  then show ?thesis using assms(1) by (simp add: before_def dispatched_def)
qed

lemma calm_inv_enqueue:
  assumes "calm_inv q" "refs_ok q" "calm q (Add t d opts gid now)"
  shows "calm_inv (enqueue t d opts gid now q)"
proof -
  let ?n = "nalloc q"
  let ?os = "(objs q)(?n := new_job gid t d opts now)"
  have lt: "\<forall>x \<in> set (jobs q). x < ?n" using assms(2) by (simp add: refs_ok_def)
  have "fifo_sorted ?os (jobs q) = fifo_sorted (objs q) (jobs q)"
    by (rule fifo_sorted_cong) (use lt in auto)
  then have "fifo_sorted ?os (jobs q)" using assms(1) by (simp add: calm_inv_def)
  then have s: "fifo_sorted ?os (sort_jobs ?os (jobs q @ [?n]))"
    using lt by (rule fifo_sorted_sort_jobs)
  have m: "set (sort_jobs ?os (jobs q @ [?n])) = insert ?n (set (jobs q))"
    by (simp add: sort_jobs_def)
  have "\<forall>r \<in> insert ?n (set (jobs q)). delay (?os r) \<le> 0 \<and> handlers q (job_type (?os r)) \<noteq> None"
    using assms(1,3) lt by (auto simp: calm_inv_def)
  then show ?thesis using s m assms(1) by (simp add: calm_inv_def enqueue_def Let_def)
qed

lemma calm_inv_success:
  assumes "calm_inv q" "refs_ok q" "r \<in> set (awaiting q)"
  shows "calm_inv (success_block r res now (q\<lparr> awaiting := remove1 r (awaiting q) \<rparr>))"
proof -
  let ?os = "(objs q)(r := (objs q r)\<lparr> status := ''completed'', result := Some res,
                                        completedAt := Some now \<rparr>)"
  have "fifo_sorted ?os (jobs q) = fifo_sorted (objs q) (jobs q)"
    by (rule fifo_sorted_cong) auto
  then show ?thesis using assms(1) by (auto simp: calm_inv_def success_block_def)
qed

lemma calm_step:
  assumes "calm_inv q" "inv q" "calm q ev" "step ev q = Some q'"
  shows "\<exists>x. calm_inv x \<and> dispatched x q' \<and> set (jobs q) \<subseteq> set (jobs x) \<and>
             set (processing x) \<subseteq> set (processing q) \<and>
             set (jobs x) \<inter> set (processing q) = {}"
proof -
  have ro: "refs_ok q" using assms(2) by (simp add: inv_def)
  have dj: "set (jobs q) \<inter> set (processing q) = {}" "nalloc q \<notin> set (processing q)"
    using ro unfolding refs_ok_def by auto
  have go: "calm_inv x \<Longrightarrow> dispatched x (startProcessing now x)" for x now
    by (rule dispatched_startProcessing) (simp add: calm_inv_def)
  show ?thesis
  proof (cases ev)
    case (Process t h)
    have "calm_inv q'" using assms(1,4) Process by (auto simp: calm_inv_def process_def)
    then show ?thesis using assms(4) Process dj dispatched_refl[of q']
      by (intro exI[of _ q']) (auto simp: process_def)
  next
    case (Add t d opts gid now)
    let ?x = "enqueue t d opts gid now q"
    have c: "calm_inv ?x" using calm_inv_enqueue[OF assms(1) ro] assms(3) Add by simp
    have "set (jobs ?x) = insert (nalloc q) (set (jobs q))" "processing ?x = processing q"
      by (simp_all add: enqueue_def Let_def sort_jobs_def)
    then show ?thesis using c go[OF c, of now] assms(4) Add dj
      by (intro exI[of _ ?x]) (auto simp: add_def)
  next
    case (TimerFired r d now)
    then show ?thesis using assms(3) by simp
  next
    case (Resolved r res now)
    then have a: "r \<in> set (awaiting q)" using assms(4) by (auto split: if_splits)
    let ?x = "success_block r res now (q\<lparr> awaiting := remove1 r (awaiting q) \<rparr>)"
    have c: "calm_inv ?x" by (rule calm_inv_success[OF assms(1) ro a])
    have "jobs ?x = jobs q" "set (processing ?x) \<subseteq> set (processing q)"
      by (auto simp: success_block_def without_id_def)
    then show ?thesis using c go[OF c, of now] assms(4) Resolved a dj
      by (intro exI[of _ ?x]) (auto simp: handler_resolved_def)
  next
    case (Rejected r e now)
    then show ?thesis using assms(3) by simp
  next
    case (RejectedNullish r)
    then show ?thesis using assms(3) by simp
  next
    case (Cleanup maxAge now)
    have "calm_inv q'" using assms(1,4) Cleanup by (auto simp: calm_inv_def cleanup_def Let_def)
    then show ?thesis using assms(4) Cleanup dj dispatched_refl[of q']
      by (intro exI[of _ q']) (auto simp: cleanup_def Let_def)
  qed
qed

lemma calm_inv_step:
  assumes "calm_inv q" "inv q" "calm q ev" "step ev q = Some q'"
  shows "calm_inv q'"
  using calm_step[OF assms] calm_inv_dispatched by blast

lemma run_calm_inv:
  "calm_inv q \<Longrightarrow> inv q \<Longrightarrow> calm_run es q \<Longrightarrow> run es q = Some q' \<Longrightarrow> calm_inv q'"
proof (induction es arbitrary: q)
  case Nil
  then show ?case by simp
next
  case (Cons e es)
  then obtain q1 where s: "step e q = Some q1" and r: "run es q1 = Some q'"
    and c: "calm q e" "calm_run es q1"
    by (auto split: option.splits)
  have "calm_inv q1" using calm_inv_step[OF Cons.prems(1,2) c(1) s] .
  moreover have "inv q1" using inv_step[OF Cons.prems(2) s] .
  ultimately show ?case using Cons.IH c(2) r by blast
qed

lemma calm_inv_new: "calm_inv (new_queue n c)"
  by (simp add: calm_inv_def new_queue_def fifo_sorted_def)

lemma step_unhandled: "step e q = Some q' \<Longrightarrow> set (unhandled q) \<subseteq> set (unhandled q')"
  by (cases e)
    (auto simp: process_def add_def enqueue_def timer_fired_def handler_resolved_def
      handler_rejected_def handler_rejected_nullish_def cleanup_def startProcessing_def
      loop_unhandled success_block_def catch_block_def Let_def split: if_splits)

lemma run_unhandled: "run es q = Some q' \<Longrightarrow> set (unhandled q) \<subseteq> set (unhandled q')"
proof (induction es arbitrary: q)
  case Nil
  then show ?case by simp
next
  case (Cons e es)
  then obtain q1 where s: "step e q = Some q1" and r: "run es q1 = Some q'"
    by (auto split: option.splits)
  from step_unhandled[OF s] Cons.IH[OF r] show ?case by blast
qed

text \<open>
  The handler of a job with the default \<open>maxAttempts = 3\<close> rejects with an \<open>Error\<close> on
  each invocation: the job ends \<open>failed\<close> with \<open>attempts = 3\<close>.
\<close>

lemma error_rejections_run:
  "rejections 0 ex_fail = 3 \<and>
   status (objs (the (run (ex_started @ ex_fail) (new_queue ''story_generation'' 2))) 0) = ''failed'' \<and>
   attempts (objs (the (run (ex_started @ ex_fail) (new_queue ''story_generation'' 2))) 0) = 3 \<and>
   maxAttempts (objs (the (run (ex_started @ ex_fail) (new_queue ''story_generation'' 2))) 0) = 3 \<and>
   failedAt (objs (the (run (ex_started @ ex_fail) (new_queue ''story_generation'' 2))) 0) = Some 6040 \<and>
   failed (the (run (ex_started @ ex_fail) (new_queue ''story_generation'' 2))) = [0] \<and>
   processing (the (run (ex_started @ ex_fail) (new_queue ''story_generation'' 2))) = [] \<and>
   timers (the (run (ex_started @ ex_fail) (new_queue ''story_generation'' 2))) = []"
  by (simp add: rejections_def ex_started_def ex_fail_def ex_twice_def
      startProcessing_loop.simps startProcessing_def processJob_def catch_block_def
      add_def enqueue_def timer_fired_def handler_rejected_def process_def new_queue_def
      new_job_def job_defaults_def spread_options_def spread_key_def or_default_def
      no_options_def sort_jobs_def without_id_def Let_def boom_def)






section \<open>The claims\<close>

lemmas eval_defs =
  startProcessing_loop.simps startProcessing_def processJob_def catch_block_def
  success_block_def add_def enqueue_def timer_fired_def handler_resolved_def
  handler_rejected_def handler_rejected_nullish_def new_Date_def process_def new_queue_def
  new_job_def job_defaults_def
  spread_options_def spread_key_def or_default_def no_options_def sort_jobs_def
  without_id_def no_handler_error_def cleanup_def date_lt_def date_ge_def getJob_def
  getStats_def Let_def boom_def storyQueue_def


subsection \<open>C1: the order in which waiting jobs start\<close>

text \<open>
  C1 (amended). \<open>add\<close> sorts the waiting array by descending priority with a stable sort,
  and the scheduler starts the head of the array. Take the runs of a queue in which no job
  is ever put back by \<open>unshift\<close>: jobs are added without delay and for a type that has a
  handler, and no handler rejects (\<open>calm\<close>). In every state of
  such a run the waiting array is ordered by descending priority and, among equal
  priorities, by the order of the \<open>add\<close> calls (the reference of a job is its rank of
  arrival). Every job that an event starts precedes, in that order, every job the event
  leaves waiting, and the jobs one event starts are started in that order. \<open>add\<close> runs the
  scheduler at once, so a job added while a slot is free is started by its own \<open>add\<close>,
  whatever the priorities of the jobs added after it. Nothing is stated here about the
  order once a job has been put back after a retry or after its delay.
\<close>

theorem priority_dispatch:
  assumes "run es (new_queue n c) = Some q" and "calm_run es (new_queue n c)"
    and "calm q ev" and "step ev q = Some q'"
  shows "fifo_sorted (objs q) (jobs q) \<and> fifo_sorted (objs q') (jobs q') \<and>
         (\<forall>a \<in> set (processing q') - set (processing q). \<forall>b \<in> set (jobs q').
            priority (objs q' b) < priority (objs q' a) \<or>
            (priority (objs q' a) = priority (objs q' b) \<and> a < b)) \<and>
         fifo_sorted (objs q') (filter (\<lambda>a. a \<notin> set (processing q)) (processing q')) \<and>
         (\<forall>t d opts gid now. ev = Add t d opts gid now \<and> length (processing q) < concurrency q \<longrightarrow>
            jobs q = [] \<and> nalloc q \<in> set (processing q') \<and>
            status (objs q' (nalloc q)) = ''processing'' \<and> jobs q' = [])"
proof -
  have i: "inv q" and qu: "quiet q" using reach_inv[OF run_reach[OF assms(1)]] by simp_all
  have c: "calm_inv q" using run_calm_inv[OF calm_inv_new inv_new_queue assms(2,1)] .
  from calm_step[OF c i assms(3,4)] obtain x where x: "calm_inv x" "dispatched x q'"
    "set (jobs q) \<subseteq> set (jobs x)" "set (processing x) \<subseteq> set (processing q)"
    "set (jobs x) \<inter> set (processing q) = {}"
    by blast
  have fx: "fifo_sorted (objs x) (jobs x)" using x(1) by (simp add: calm_inv_def)
  have 1: "fifo_sorted (objs q) (jobs q)" using c by (simp add: calm_inv_def)
  have 2: "fifo_sorted (objs q') (jobs q')"
    using calm_inv_dispatched[OF x(1,2)] by (simp add: calm_inv_def)
  have 3: "\<forall>a \<in> set (processing q') - set (processing q). \<forall>b \<in> set (jobs q').
            priority (objs q' b) < priority (objs q' a) \<or>
            (priority (objs q' a) = priority (objs q' b) \<and> a < b)"
  proof (intro ballI)
    fix a b assume a: "a \<in> set (processing q') - set (processing q)" and b: "b \<in> set (jobs q')"
    then have "a \<in> set (processing q')" "a \<notin> set (processing x)" using x(4) by auto
    from dispatched_order[OF x(2) fx this b]
    show "priority (objs q' b) < priority (objs q' a) \<or>
            (priority (objs q' a) = priority (objs q' b) \<and> a < b)"
      by (simp add: before_def)
  qed
  from x(2) obtain k where k: "processing q' = processing x @ take k (jobs x)"
    unfolding dispatched_def by blast
  have "filter (\<lambda>a. a \<notin> set (processing q)) (processing x) = []"
    using x(4) by (auto simp: filter_empty_conv)
  moreover have "filter (\<lambda>a. a \<notin> set (processing q)) (take k (jobs x)) = take k (jobs x)"
    using x(5) by (auto simp: filter_id_conv dest!: in_set_takeD)
  ultimately have f: "filter (\<lambda>a. a \<notin> set (processing q)) (processing q') = take k (jobs x)"
    unfolding k by simp
  have "fifo_sorted (objs x) (take k (jobs x))"
    using fx by (simp add: fifo_sorted_def sorted_wrt_take)
  moreover have "fifo_sorted (objs q') (take k (jobs x)) = fifo_sorted (objs x) (take k (jobs x))"
    by (rule fifo_sorted_cong) (use x(2) in \<open>simp add: dispatched_def\<close>)
  ultimately have 4: "fifo_sorted (objs q') (filter (\<lambda>a. a \<notin> set (processing q)) (processing q'))"
    unfolding f by simp
  have 5: "\<forall>t d opts gid now. ev = Add t d opts gid now \<and> length (processing q) < concurrency q \<longrightarrow>
            jobs q = [] \<and> nalloc q \<in> set (processing q') \<and>
            status (objs q' (nalloc q)) = ''processing'' \<and> jobs q' = []"
  proof (intro allI impI)
    fix t d opts gid now
    assume a: "ev = Add t d opts gid now \<and> length (processing q) < concurrency q"
    then have idle: "\<not> isProcessing q" "jobs q = []" using qu by (auto simp: quiet_def)
    have k: "delay (new_job gid t d opts now) \<le> 0"
      "handlers q (job_type (new_job gid t d opts now)) \<noteq> None"
      using assms(3) a by simp_all
    have q': "q' = snd (add t d opts gid now q)" using assms(4) a by simp
    show "jobs q = [] \<and> nalloc q \<in> set (processing q') \<and>
            status (objs q' (nalloc q)) = ''processing'' \<and> jobs q' = []"
      using add_idle[of q gid t d opts now] a k idle by (simp add: q')
  qed
  show ?thesis using 1 2 3 4 5 by blast
qed

theorem priority_dispatch_witness:
  "calm_run ex_calm (new_queue ''echo_queue'' 1) \<and>
   jobs (the (run ex_calm (new_queue ''echo_queue'' 1))) = [1, 3, 2] \<and>
   processing (the (run (ex_calm @ [Resolved 0 ''a'' 20]) (new_queue ''echo_queue'' 1))) = [1] \<and>
   jobs (the (run (ex_calm @ [Resolved 0 ''a'' 20]) (new_queue ''echo_queue'' 1))) = [3, 2] \<and>
   fifo_sorted (objs (the (run (ex_calm @ [Resolved 0 ''a'' 20]) (new_queue ''echo_queue'' 1))))
     (jobs (the (run (ex_calm @ [Resolved 0 ''a'' 20]) (new_queue ''echo_queue'' 1))))"
proof -
  let ?r = "run ex_calm (new_queue ''echo_queue'' 1)"
  have ne: "?r \<noteq> None"
    by (simp add: ex_calm_def ex_priorities_def with_priority_def eval_defs)
  then obtain q where q: "?r = Some q" by auto
  have c: "calm_run ex_calm (new_queue ''echo_queue'' 1)"
    by (simp add: ex_calm_def ex_priorities_def with_priority_def eval_defs used_ids_def
        documented_options_def)
  have v: "jobs (the ?r) = [1, 3, 2]" "awaiting (the ?r) = [0]"
    by (simp_all add: ex_calm_def ex_priorities_def with_priority_def eval_defs)
  have s: "step (Resolved 0 ''a'' 20) q = Some (handler_resolved 0 ''a'' 20 q)"
    using v(2) q by simp
  have e: "run (ex_calm @ [Resolved 0 ''a'' 20]) (new_queue ''echo_queue'' 1)
           = Some (handler_resolved 0 ''a'' 20 q)"
    using q s by (simp add: run_append)
  have w: "processing (handler_resolved 0 ''a'' 20 (the ?r)) = [1]"
    "jobs (handler_resolved 0 ''a'' 20 (the ?r)) = [3, 2]"
    by (simp_all add: ex_calm_def ex_priorities_def with_priority_def eval_defs)
  have k: "calm q (Resolved 0 ''a'' 20)" by simp
  note t = priority_dispatch[OF q c k s]
  have f: "fifo_sorted (objs (handler_resolved 0 ''a'' 20 q)) (jobs (handler_resolved 0 ''a'' 20 q))"
    using t by simp
  show ?thesis unfolding e q option.sel
    using c v[unfolded q option.sel] w[unfolded q option.sel] f by simp
qed

text \<open>
  The claim as stated fails twice. With concurrency 1 and jobs added with priorities 1, 5
  and 3, the job of priority 1 is started by its own \<open>add\<close> call, before the jobs of
  priority 5 and 3 exist. And a job of priority 1 whose delay of 100 ms has elapsed is put
  at the front of the waiting array, before a waiting job of priority 5, and is the job
  started when the slot becomes free.
\<close>

theorem priority_dispatch_counterexample:
  "processing (the (run ex_priorities (new_queue ''echo_queue'' 1))) = [0] \<and>
   jobs (the (run ex_priorities (new_queue ''echo_queue'' 1))) = [1, 2] \<and>
   priority (objs (the (run ex_priorities (new_queue ''echo_queue'' 1))) 0) = 1 \<and>
   priority (objs (the (run ex_priorities (new_queue ''echo_queue'' 1))) 1) = 5 \<and>
   priority (objs (the (run ex_priorities (new_queue ''echo_queue'' 1))) 2) = 3 \<and>
   processing (the (run ex_requeue (new_queue ''echo_queue'' 1))) = [1] \<and>
   jobs (the (run ex_requeue (new_queue ''echo_queue'' 1))) = [0, 2] \<and>
   processing (the (run (ex_requeue @ [Resolved 1 ''a'' 120]) (new_queue ''echo_queue'' 1))) = [0] \<and>
   jobs (the (run (ex_requeue @ [Resolved 1 ''a'' 120]) (new_queue ''echo_queue'' 1))) = [2] \<and>
   priority (objs (the (run (ex_requeue @ [Resolved 1 ''a'' 120]) (new_queue ''echo_queue'' 1))) 0) = 1 \<and>
   priority (objs (the (run (ex_requeue @ [Resolved 1 ''a'' 120]) (new_queue ''echo_queue'' 1))) 2) = 5"
  by (simp add: ex_priorities_def ex_requeue_def with_priority_def eval_defs)

subsection \<open>C2: retries, then success\<close>

text \<open>
  C2 (amended). \<open>attempts\<close> is incremented in the \<open>catch\<close> block only, so it counts the
  failed invocations of the handler. Take a state \<open>q\<close> that a queue reaches by documented
  calls of \<open>add\<close>, a job \<open>r\<close> of \<open>q\<close> whose type has a handler, and any events \<open>es'\<close> after
  which the handler's promise for \<open>r\<close> is fulfilled with \<open>res\<close>: the job then has status
  \<open>completed\<close>, \<open>result = res\<close> and \<open>completedAt\<close> set, it is in \<open>completed\<close>, its fields
  never change again, and \<open>attempts\<close> has grown by the number of rejections of \<open>r\<close> among
  \<open>es'\<close>: a job that starts with \<open>attempts = 0\<close>, fails \<open>k\<close> times and then succeeds ends
  with \<open>attempts = k\<close>. A rejection that leaves \<open>attempts = i < maxAttempts\<close> puts the job in
  a timer of \<open>2^i * 1000\<close> ms, the delay before attempt \<open>i + 1\<close>.
\<close>

theorem retry_then_success:
  assumes "run es (new_queue n c) = Some q" and "documented_run es (new_queue n c)"
    and "r < nalloc q" and "handlers q (job_type (objs q r)) \<noteq> None"
    and "run (es' @ [Resolved r res now]) q = Some q'"
  shows "status (objs q' r) = ''completed'' \<and> result (objs q' r) = Some res \<and>
         completedAt (objs q' r) = Some now \<and> r \<in> set (completed q') \<and>
         attempts (objs q' r) = attempts (objs q r) + rejections r es' \<and>
         (\<forall>es'' q''. run es'' q' = Some q'' \<longrightarrow> objs q'' r = objs q' r) \<and>
         (r \<in> set (processing q) \<and> attempts (objs q r) + 1 < maxAttempts (objs q r) \<longrightarrow>
            attempts (objs (handler_rejected r e now0 q) r) = attempts (objs q r) + 1 \<and>
            delay (objs (handler_rejected r e now0 q) r) = 2 ^ (attempts (objs q r) + 1) * 1000 \<and>
            (r, 2 ^ (attempts (objs q r) + 1) * 1000) \<in> set (timers (handler_rejected r e now0 q)))"
proof -
  obtain q1 where q1: "run es' q = Some q1" and s: "step (Resolved r res now) q1 = Some q'"
    using assms(5) by (auto simp: run_append split: option.splits)
  then have a: "r \<in> set (awaiting q1)" and q': "q' = handler_resolved r res now q1"
    by (auto split: if_splits)
  have d: "doc_inv q" using run_doc_inv[OF assms(1,2)] .
  have qu: "\<not> isProcessing q" using run_quiet[OF assms(1)] by (simp add: quiet_def)
  have "inv q" using d by (simp add: doc_inv_def)
  then have i1: "inv q1" using run_inv q1 by blast
  note f = resolved_final[OF i1 a, of res now, folded q']
  note c = run_attempts[OF assms(3,4) q1]
  have st: "objs q'' r = objs q' r" if "run es'' q' = Some q''" for es'' q''
    using run_retired[OF f(3) that] by simp
  have D: "r \<in> set (processing q) \<and> attempts (objs q r) + 1 < maxAttempts (objs q r) \<longrightarrow>
            attempts (objs (handler_rejected r e now0 q) r) = attempts (objs q r) + 1 \<and>
            delay (objs (handler_rejected r e now0 q) r) = 2 ^ (attempts (objs q r) + 1) * 1000 \<and>
            (r, 2 ^ (attempts (objs q r) + 1) * 1000) \<in> set (timers (handler_rejected r e now0 q))"
  proof
    assume h: "r \<in> set (processing q) \<and> attempts (objs q r) + 1 < maxAttempts (objs q r)"
    then have "r \<in> set (processing q)" by simp
    from rejected_retry[OF d this _ qu, of e now0] h
    show "attempts (objs (handler_rejected r e now0 q) r) = attempts (objs q r) + 1 \<and>
            delay (objs (handler_rejected r e now0 q) r) = 2 ^ (attempts (objs q r) + 1) * 1000 \<and>
            (r, 2 ^ (attempts (objs q r) + 1) * 1000) \<in> set (timers (handler_rejected r e now0 q))"
      by simp
  qed
  show ?thesis using f(1,2) c st D by simp
qed

theorem retry_then_success_witness:
  "documented_run ex_started (new_queue ''story_generation'' 2) \<and>
   rejections 0 ex_twice = 2 \<and>
   status (objs (the (run (ex_twice @ [Resolved 0 ''ok'' 6040])
                   (the (run ex_started (new_queue ''story_generation'' 2))))) 0) = ''completed'' \<and>
   attempts (objs (the (run (ex_twice @ [Resolved 0 ''ok'' 6040])
                   (the (run ex_started (new_queue ''story_generation'' 2))))) 0) = 2"
proof -
  let ?r = "run ex_started (new_queue ''story_generation'' 2)"
  have ne: "?r \<noteq> None" by (simp add: ex_started_def eval_defs)
  then obtain q where q: "?r = Some q" by auto
  have d: "documented_run ex_started (new_queue ''story_generation'' 2)"
    by (simp add: ex_started_def eval_defs used_ids_def documented_options_def)
  have v: "nalloc (the ?r) = 1" "handlers (the ?r) (job_type (objs (the ?r) 0)) \<noteq> None"
    "attempts (objs (the ?r) 0) = 0"
    by (simp_all add: ex_started_def eval_defs)
  have n: "0 < nalloc q" and h: "handlers q (job_type (objs q 0)) \<noteq> None"
    using v q by simp_all
  have ne2: "run (ex_twice @ [Resolved 0 ''ok'' 6040]) (the ?r) \<noteq> None"
    by (simp add: ex_started_def ex_twice_def eval_defs)
  then obtain q' where q': "run (ex_twice @ [Resolved 0 ''ok'' 6040]) q = Some q'"
    using q by auto
  have k: "rejections 0 ex_twice = 2" by (simp add: rejections_def ex_twice_def)
  from retry_then_success[OF q d n h q'] v(3) k d show ?thesis by (simp add: q q')
qed

text \<open>
  The claim as stated fails on the scenario of the spec: with \<open>maxAttempts = 3\<close> the
  handler is rejected twice (after which the timers of 2000 and 4000 ms fire) and then
  fulfilled; the job is \<open>completed\<close> with \<open>attempts = 2\<close>, not 3, after three invocations.
\<close>

theorem retry_then_success_counterexample:
  "rejections 0 ex_twice = 2 \<and>
   maxAttempts (objs (the (run (ex_started @ ex_twice @ [Resolved 0 ''ok'' 6040])
                   (new_queue ''story_generation'' 2))) 0) = 3 \<and>
   status (objs (the (run (ex_started @ ex_twice @ [Resolved 0 ''ok'' 6040])
                   (new_queue ''story_generation'' 2))) 0) = ''completed'' \<and>
   result (objs (the (run (ex_started @ ex_twice @ [Resolved 0 ''ok'' 6040])
                   (new_queue ''story_generation'' 2))) 0) = Some ''ok'' \<and>
   attempts (objs (the (run (ex_started @ ex_twice @ [Resolved 0 ''ok'' 6040])
                   (new_queue ''story_generation'' 2))) 0) = 2"
  by (simp add: rejections_def ex_started_def ex_twice_def eval_defs)

subsection \<open>C3: a job whose type has no handler\<close>

text \<open>
  C3 (amended). The error of a missing handler is thrown inside the \<open>try\<close> of
  \<open>processJob\<close> and handled like a handler's error: \<open>attempts\<close> is incremented and
  \<open>error\<close> records the message; the job moves to \<open>failed\<close> only if \<open>attempts\<close> has then
  reached \<open>maxAttempts\<close>, and otherwise it is put back at the head of the waiting array with
  status \<open>waiting\<close> and delay \<open>2^attempts * 1000\<close>. In particular a job of an unregistered
  type added with the documented options and no delay to a queue with a free slot has
  \<open>attempts = 1\<close> when \<open>add\<close> returns; it is \<open>failed\<close> if \<open>maxAttempts \<le> 1\<close>, and
  otherwise it is \<open>waiting\<close> in a timer of 2000 ms, after which it is tried again.
\<close>

theorem no_handler_is_retried:
  assumes "run es (new_queue n c) = Some q" and "length (processing q) < concurrency q"
    and "handlers q t = None" and "documented_options opts"
    and "delay (new_job gid t d opts now) \<le> 0"
    and "add t d opts gid now q = (r, q')"
  shows "attempts (objs q' r) = 1 \<and>
     error (objs q' r) = Some (''No handler registered for job type: '' @ t) \<and>
     (maxAttempts (new_job gid t d opts now) \<le> 1 \<longrightarrow>
        status (objs q' r) = ''failed'' \<and> failedAt (objs q' r) = Some now \<and>
        failed q' = failed q @ [r] \<and> timers q' = timers q) \<and>
     (1 < maxAttempts (new_job gid t d opts now) \<longrightarrow>
        status (objs q' r) = ''waiting'' \<and> delay (objs q' r) = 2000 \<and>
        timers q' = timers q @ [(r, 2000)] \<and> failed q' = failed q \<and> jobs q' = []) \<and>
     (handlers q0 (job_type (objs q0 r0)) = None \<longrightarrow>
        attempts (objs (processJob r0 now0 q0) r0) = attempts (objs q0 r0) + 1 \<and>
        (maxAttempts (objs q0 r0) \<le> attempts (objs q0 r0) + 1 \<longrightarrow>
           status (objs (processJob r0 now0 q0) r0) = ''failed'' \<and>
           failed (processJob r0 now0 q0) = failed q0 @ [r0]) \<and>
        (attempts (objs q0 r0) + 1 < maxAttempts (objs q0 r0) \<longrightarrow>
           status (objs (processJob r0 now0 q0) r0) = ''waiting'' \<and>
           delay (objs (processJob r0 now0 q0) r0) = 2 ^ (attempts (objs q0 r0) + 1) * 1000 \<and>
           jobs (processJob r0 now0 q0) = r0 # jobs q0))"
proof -
  have qu: "quiet q" using reach_inv[OF run_reach[OF assms(1)]] by simp
  then have idle: "\<not> isProcessing q" "jobs q = []" using assms(2) by (auto simp: quiet_def)
  have j: "job_type (new_job gid t d opts now) = t" "attempts (new_job gid t d opts now) = 0"
    using assms(4)
    by (simp_all add: documented_options_def new_job_def spread_options_def job_defaults_def
        spread_key_def)
  have r: "r = nalloc q" and q': "q' = snd (add t d opts gid now q)"
    using assms(6) by (auto simp: add_def)
  have "handlers q (job_type (new_job gid t d opts now)) = None" using assms(3) j by simp
  from add_free_slot_no_handler[OF idle assms(2) this assms(5)]
  have B: "attempts (objs q' r) = 1 \<and>
     error (objs q' r) = Some (''No handler registered for job type: '' @ t) \<and>
     (maxAttempts (new_job gid t d opts now) \<le> 1 \<longrightarrow>
        status (objs q' r) = ''failed'' \<and> failedAt (objs q' r) = Some now \<and>
        failed q' = failed q @ [r] \<and> timers q' = timers q) \<and>
     (1 < maxAttempts (new_job gid t d opts now) \<longrightarrow>
        status (objs q' r) = ''waiting'' \<and> delay (objs q' r) = 2000 \<and>
        timers q' = timers q @ [(r, 2000)] \<and> failed q' = failed q \<and> jobs q' = [])"
    unfolding Let_def r q' j by simp
  show ?thesis using B processJob_no_handler[of q0 r0 now0] by simp
qed

theorem no_handler_is_retried_witness:
  "attempts (objs (snd (add ''generate_image'' ''p1'' no_options ''id1'' 10 storyQueue)) 0) = 1 \<and>
   status (objs (snd (add ''generate_image'' ''p1'' no_options ''id1'' 10 storyQueue)) 0) = ''waiting'' \<and>
   timers (snd (add ''generate_image'' ''p1'' no_options ''id1'' 10 storyQueue)) = [(0, 2000)]"
proof -
  obtain r q' where a: "add ''generate_image'' ''p1'' no_options ''id1'' 10 storyQueue = (r, q')"
    by (cases "add ''generate_image'' ''p1'' no_options ''id1'' 10 storyQueue")
  have s: "run [Process ''generate_story'' 0] (new_queue ''story_generation'' 2) = Some storyQueue"
    by (simp add: storyQueue_def)
  have h: "length (processing storyQueue) < concurrency storyQueue"
    "handlers storyQueue ''generate_image'' = None" "documented_options no_options"
    "delay (new_job ''id1'' ''generate_image'' ''p1'' no_options 10) \<le> 0"
    "1 < maxAttempts (new_job ''id1'' ''generate_image'' ''p1'' no_options 10)"
    "timers storyQueue = []"
    by (simp_all add: eval_defs documented_options_def)
  have r: "r = 0" using a by (simp add: add_def eval_defs)
  from no_handler_is_retried[OF s h(1-4) a] h(5,6) r show ?thesis by (simp add: a)
qed

text \<open>
  The claim as stated fails: a job of the unregistered type \<open>generate_image\<close> added to
  \<open>storyQueue\<close> with the default \<open>maxAttempts = 3\<close> is not \<open>failed\<close> after its first
  attempt; it waits 2000 ms, is tried a second time and then waits 4000 ms.
\<close>

theorem no_handler_counterexample:
  "status (objs (snd (add ''generate_image'' ''p1'' no_options ''id1'' 10 storyQueue)) 0) \<noteq> ''failed'' \<and>
   failed (snd (add ''generate_image'' ''p1'' no_options ''id1'' 10 storyQueue)) = [] \<and>
   timers (snd (add ''generate_image'' ''p1'' no_options ''id1'' 10 storyQueue)) = [(0, 2000)] \<and>
   status (objs (the (run [Add ''generate_image'' ''p1'' no_options ''id1'' 10, TimerFired 0 2000 2010]
      storyQueue)) 0) = ''waiting'' \<and>
   attempts (objs (the (run [Add ''generate_image'' ''p1'' no_options ''id1'' 10, TimerFired 0 2000 2010]
      storyQueue)) 0) = 2 \<and>
   timers (the (run [Add ''generate_image'' ''p1'' no_options ''id1'' 10, TimerFired 0 2000 2010]
      storyQueue)) = [(0, 4000)]"
  by (simp add: eval_defs)

subsection \<open>C4: where a job is\<close>

text \<open>
  C4 (amended). In every state a queue reaches by documented calls of \<open>add\<close> (options with
  at most \<open>priority\<close>, \<open>maxAttempts\<close> and \<open>delay\<close>, ids unique), every job that was
  enqueued has exactly one of the four statuses and is in at most one of the four arrays,
  and an array that holds it matches its status. A job with status \<open>processing\<close> is in
  \<open>processing\<close>. A job with status \<open>waiting\<close> is in the waiting array or is held by a
  timer. A job is in the waiting array only while every slot is busy; this includes a job
  with a positive delay that the scheduler has not reached yet, which \<open>getJob\<close> finds and
  \<open>getStats\<close> counts. Once the scheduler has handed a job with a positive delay to a
  timer, and until that timer fires, the job is in none of the four arrays, \<open>getJob\<close> does
  not find it and \<open>getStats\<close> does not count it. \<open>getJob(id)\<close> returns the job exactly
  when one of the arrays holds it, and the four counts of \<open>getStats\<close> add up to the number
  of jobs the arrays hold. (A job with status \<open>completed\<close> or \<open>failed\<close> that no array
  holds was removed by \<open>cleanup\<close>.)
\<close>

theorem job_location:
  assumes "run es (new_queue n c) = Some q" and "documented_run es (new_queue n c)"
    and "r < nalloc q"
  shows "(status (objs q r) = ''waiting'' \<or> status (objs q r) = ''processing'' \<or>
          status (objs q r) = ''completed'' \<or> status (objs q r) = ''failed'') \<and>
         distinct (jobs q @ processing q @ completed q @ failed q) \<and>
         (r \<in> set (jobs q) \<longrightarrow> status (objs q r) = ''waiting'') \<and>
         (r \<in> set (processing q) \<longrightarrow> status (objs q r) = ''processing'') \<and>
         (r \<in> set (completed q) \<longrightarrow> status (objs q r) = ''completed'') \<and>
         (r \<in> set (failed q) \<longrightarrow> status (objs q r) = ''failed'') \<and>
         (status (objs q r) = ''processing'' \<longrightarrow> r \<in> set (processing q)) \<and>
         (status (objs q r) = ''waiting'' \<longrightarrow> r \<in> set (jobs q) \<or> r \<in> fst ` set (timers q)) \<and>
         (r \<in> set (jobs q) \<longrightarrow>
            concurrency q \<le> length (processing q) \<and> getJob q (job_id (objs q r)) = Some r) \<and>
         (r \<in> fst ` set (timers q) \<longrightarrow>
            status (objs q r) = ''waiting'' \<and> 0 < delay (objs q r) \<and>
            r \<notin> set (jobs q @ processing q @ completed q @ failed q) \<and>
            getJob q (job_id (objs q r)) = None) \<and>
         getJob q (job_id (objs q r)) =
           (if r \<in> set (jobs q @ processing q @ completed q @ failed q) then Some r else None) \<and>
         stat_waiting (getStats q) + stat_processing (getStats q) + stat_completed (getStats q) +
           stat_failed (getStats q) =
           card (set (jobs q @ processing q @ completed q @ failed q))"
proof -
  have d: "doc_inv q" using run_doc_inv[OF assms(1,2)] .
  note s = doc_inv_status[OF d assms(3)]
  note h = doc_inv_held[OF d assms(3)]
  note a = doc_inv_arrays[OF d]
  note g = doc_inv_getJob[OF d assms(3)]
  have four: "status (objs q r) = ''waiting'' \<or> status (objs q r) = ''processing'' \<or>
          status (objs q r) = ''completed'' \<or> status (objs q r) = ''failed''"
    using s h by blast
  have p: "status (objs q r) = ''processing'' \<longrightarrow> r \<in> set (processing q)"
    using s h by auto
  have w: "status (objs q r) = ''waiting'' \<longrightarrow> r \<in> set (jobs q) \<or> r \<in> fst ` set (timers q)"
    using s h by auto
  have m: "marks_ok q" using d by (simp add: doc_inv_def inv_def)
  have pos: "r \<in> fst ` set (timers q) \<longrightarrow> 0 < delay (objs q r)"
    using m unfolding marks_ok_def by auto
  have t: "r \<in> fst ` set (timers q) \<longrightarrow>
            status (objs q r) = ''waiting'' \<and> 0 < delay (objs q r) \<and>
            r \<notin> set (jobs q @ processing q @ completed q @ failed q) \<and>
            getJob q (job_id (objs q r)) = None"
    using s a(3) g pos by auto
  have j: "r \<in> set (jobs q) \<longrightarrow>
            concurrency q \<le> length (processing q) \<and> getJob q (job_id (objs q r)) = Some r"
    using run_quiet[OF assms(1)] g by (auto simp: quiet_def)
  have c: "stat_waiting (getStats q) + stat_processing (getStats q) + stat_completed (getStats q) +
           stat_failed (getStats q) =
           card (set (jobs q @ processing q @ completed q @ failed q))"
    using distinct_card[OF a(1)] by (simp add: getStats_def)
  show ?thesis using four a(1) s p w j t g c by blast
qed

theorem job_location_witness:
  "documented_run ex_retry (new_queue ''story_generation'' 2) \<and>
   status (objs (the (run ex_retry (new_queue ''story_generation'' 2))) 0) = ''waiting'' \<and>
   timers (the (run ex_retry (new_queue ''story_generation'' 2))) = [(0, 2000)] \<and>
   getJob (the (run ex_retry (new_queue ''story_generation'' 2))) ''id1'' = None \<and>
   processing (the (run ex_retry (new_queue ''story_generation'' 2))) = [1, 2] \<and>
   getJob (the (run ex_retry (new_queue ''story_generation'' 2))) ''id2'' = Some 1 \<and>
   documented_run ex_busy (new_queue ''story_generation'' 2) \<and>
   jobs (the (run ex_busy (new_queue ''story_generation'' 2))) = [2] \<and>
   delay (objs (the (run ex_busy (new_queue ''story_generation'' 2))) 2) = 5000 \<and>
   timers (the (run ex_busy (new_queue ''story_generation'' 2))) = [] \<and>
   status (objs (the (run ex_busy (new_queue ''story_generation'' 2))) 2) = ''waiting'' \<and>
   getJob (the (run ex_busy (new_queue ''story_generation'' 2))) ''id3'' = Some 2 \<and>
   stat_waiting (getStats (the (run ex_busy (new_queue ''story_generation'' 2)))) = 1"
proof -
  let ?r = "run ex_retry (new_queue ''story_generation'' 2)"
  have ne: "?r \<noteq> None" by (simp add: ex_retry_def eval_defs)
  then obtain q where q: "?r = Some q" by auto
  have d: "documented_run ex_retry (new_queue ''story_generation'' 2)"
    by (simp add: ex_retry_def eval_defs used_ids_def documented_options_def)
  have v: "nalloc (the ?r) = 3" "timers (the ?r) = [(0, 2000)]" "processing (the ?r) = [1, 2]"
    "job_id (objs (the ?r) 0) = ''id1''" "job_id (objs (the ?r) 1) = ''id2''"
    by (simp_all add: ex_retry_def eval_defs)
  have n: "0 < nalloc q" "1 < nalloc q" using v(1) q by simp_all
  have A: "status (objs q 0) = ''waiting'' \<and> getJob q ''id1'' = None \<and> getJob q ''id2'' = Some 1"
    using job_location[OF q d n(1)] job_location[OF q d n(2)] v q by simp
  let ?b = "run ex_busy (new_queue ''story_generation'' 2)"
  have neb: "?b \<noteq> None" by (simp add: ex_busy_def eval_defs)
  then obtain b where b: "?b = Some b" by auto
  have db: "documented_run ex_busy (new_queue ''story_generation'' 2)"
    by (simp add: ex_busy_def eval_defs used_ids_def documented_options_def)
  have vb: "nalloc (the ?b) = 3" "jobs (the ?b) = [2]" "delay (objs (the ?b) 2) = 5000"
    "timers (the ?b) = []" "job_id (objs (the ?b) 2) = ''id3''"
    by (simp_all add: ex_busy_def eval_defs)
  have "2 < nalloc b" using vb(1) b by simp
  from job_location[OF b db this] vb b
  have B: "status (objs b 2) = ''waiting'' \<and> getJob b ''id3'' = Some 2" by simp
  have C: "stat_waiting (getStats b) = 1" using vb(2) b by (simp add: getStats_def)
  show ?thesis using A B C v vb d db by (simp add: q b)
qed

text \<open>
  The claim as stated fails: a job added to \<open>storyQueue\<close> with \<open>{delay: 5000}\<close> is shifted
  out of the waiting array by the scheduler and held by the timer only; it was enqueued and
  not cleaned up, its status is \<open>waiting\<close>, and it is in none of the four arrays, so
  \<open>getJob\<close> returns \<open>undefined\<close> for its id and \<open>getStats\<close> counts no waiting job.
\<close>

theorem job_location_counterexample:
  "nalloc (snd (add ''generate_story'' ''s1'' (no_options\<lparr> opt_delay := Some 5000 \<rparr>) ''id1'' 10 storyQueue)) = 1 \<and>
   job_id (objs (snd (add ''generate_story'' ''s1'' (no_options\<lparr> opt_delay := Some 5000 \<rparr>) ''id1'' 10 storyQueue)) 0) = ''id1'' \<and>
   status (objs (snd (add ''generate_story'' ''s1'' (no_options\<lparr> opt_delay := Some 5000 \<rparr>) ''id1'' 10 storyQueue)) 0) = ''waiting'' \<and>
   jobs (snd (add ''generate_story'' ''s1'' (no_options\<lparr> opt_delay := Some 5000 \<rparr>) ''id1'' 10 storyQueue)) = [] \<and>
   processing (snd (add ''generate_story'' ''s1'' (no_options\<lparr> opt_delay := Some 5000 \<rparr>) ''id1'' 10 storyQueue)) = [] \<and>
   completed (snd (add ''generate_story'' ''s1'' (no_options\<lparr> opt_delay := Some 5000 \<rparr>) ''id1'' 10 storyQueue)) = [] \<and>
   failed (snd (add ''generate_story'' ''s1'' (no_options\<lparr> opt_delay := Some 5000 \<rparr>) ''id1'' 10 storyQueue)) = [] \<and>
   getJob (snd (add ''generate_story'' ''s1'' (no_options\<lparr> opt_delay := Some 5000 \<rparr>) ''id1'' 10 storyQueue)) ''id1'' = None \<and>
   stat_waiting (getStats (snd (add ''generate_story'' ''s1'' (no_options\<lparr> opt_delay := Some 5000 \<rparr>) ''id1'' 10 storyQueue))) = 0 \<and>
   timers (snd (add ''generate_story'' ''s1'' (no_options\<lparr> opt_delay := Some 5000 \<rparr>) ''id1'' 10 storyQueue)) = [(0, 5000)]"
  by (simp add: eval_defs)
subsection \<open>C5: the concurrency bound\<close>

text \<open>
  C5. For every queue constructed with concurrency \<open>N\<close> and every sequence of events,
  the \<open>processing\<close> array of the state reached holds at most \<open>N\<close> jobs, and a job that a
  timer holds (waiting out its initial or retry delay) is not in \<open>processing\<close>. The bound
  is an invariant of every iteration of the scheduler's loop (\<open>inv_loop\<close>), not only of
  the states between events.
\<close>

theorem concurrency_bound:
  assumes "run es (new_queue n N) = Some q"
  shows "concurrency q = N \<and> length (processing q) \<le> N \<and>
         (\<forall>t \<in> set (timers q). fst t \<notin> set (processing q))"
proof -
  have "inv q" using reach_inv[OF run_reach[OF assms]] by simp
  moreover have "concurrency q = N" using run_concurrency[OF assms] by (simp add: new_queue_def)
  ultimately show ?thesis using timers_not_processing[of q] by (auto simp: inv_def bounded_def)
qed

theorem concurrency_bound_witness:
  "run ex_retry (new_queue ''story_generation'' 2) \<noteq> None \<and>
   length (processing (the (run ex_retry (new_queue ''story_generation'' 2)))) \<le> 2 \<and>
   timers (the (run ex_retry (new_queue ''story_generation'' 2))) = [(0, 2000)] \<and>
   0 \<notin> set (processing (the (run ex_retry (new_queue ''story_generation'' 2))))"
proof -
  let ?r = "run ex_retry (new_queue ''story_generation'' 2)"
  have ne: "?r \<noteq> None" by (simp add: ex_retry_def eval_defs)
  then obtain q where q: "?r = Some q" by auto
  have t: "timers (the ?r) = [(0, 2000)]" by (simp add: ex_retry_def eval_defs)
  from concurrency_bound[OF q] t ne show ?thesis by (simp add: q)
qed

subsection \<open>C6: a job whose handler always fails\<close>

text \<open>
  C6. The \<open>catch\<close> block of \<open>processJob\<close> reads \<open>error.message\<close> (line 117) right after it
  has incremented \<open>attempts\<close>. When the handler of a job \<open>r\<close> in flight rejects with \<open>null\<close>
  or \<open>undefined\<close>, that read throws and \<open>processJob\<close> ends there. Whatever events follow,
  the job keeps the status \<open>processing\<close> with \<open>attempts\<close> incremented once and no
  \<open>failedAt\<close>; it is in no waiting array, timer or \<open>failed\<close> array and no handler is
  suspended for it, so it is never tried again and never fails; in a queue with documented
  calls of \<open>add\<close> it stays in \<open>processing\<close> and keeps its slot. The job of a handler that
  fails on every invocation in this way does not end in status \<open>failed\<close>. (With an
  \<open>Error\<close> and the default \<open>maxAttempts = 3\<close> the job does end \<open>failed\<close> with
  \<open>attempts = 3\<close>, lemma \<open>error_rejections_run\<close>.)
\<close>

theorem null_rejection_strands_job:
  assumes "run es (new_queue n c) = Some q" and "r \<in> set (awaiting q)"
    and "run (RejectedNullish r # es') q = Some q'"
  shows "status (objs q r) = ''processing'' \<and> status (objs q' r) = ''processing'' \<and>
         attempts (objs q' r) = attempts (objs q r) + 1 \<and>
         failedAt (objs q' r) = failedAt (objs q r) \<and>
         r \<notin> set (jobs q') \<and> r \<notin> fst ` set (timers q') \<and> r \<notin> set (awaiting q') \<and>
         r \<notin> set (failed q') \<and> r \<in> set (unhandled q') \<and>
         (documented_run (es @ RejectedNullish r # es') (new_queue n c) \<longrightarrow>
            r \<in> set (processing q'))"
proof -
  let ?q1 = "handler_rejected_nullish r q"
  have s: "step (RejectedNullish r) q = Some ?q1" and q': "run es' ?q1 = Some q'"
    using assms(2,3) by simp_all
  have i: "inv q" using reach_inv[OF run_reach[OF assms(1)]] by simp
  have i1: "inv ?q1" using inv_step[OF i s] .
  have i': "inv q'" using run_inv[OF i1 q'] .
  have st: "status (objs q r) = ''processing''"
    using i assms(2) by (simp add: inv_def marks_ok_def)
  have ro: "refs_ok q" using i by (simp add: inv_def)
  note rs = refs_ok_settle[OF ro assms(2)]
  have ret: "retired ?q1 r" using rs(2,5) by (simp add: retired_def handler_rejected_nullish_def)
  note k = run_retired[OF ret q']
  have o: "objs q' r = (objs q r)\<lparr> attempts := attempts (objs q r) + 1 \<rparr>"
    using k by (simp add: handler_rejected_nullish_def)
  have u: "r \<in> set (unhandled q')"
    using run_unhandled[OF q'] by (auto simp: handler_rejected_nullish_def)
  have f: "r \<notin> set (failed q')"
    using i' o st by (auto simp: inv_def marks_ok_def)
  have d: "r \<in> set (processing q')"
    if "documented_run (es @ RejectedNullish r # es') (new_queue n c)"
  proof -
    have "run (es @ RejectedNullish r # es') (new_queue n c) = Some q'"
      using run_extend[OF assms(1,3)] .
    then have "doc_inv q'" using run_doc_inv that by blast
    then show ?thesis using u doc_inv_processing by auto
  qed
  show ?thesis using st o k f u d by (simp add: retired_def)
qed

theorem null_rejection_strands_job_witness:
  "documented_run (ex_started @ ex_null) (new_queue ''story_generation'' 2) \<and>
   awaiting (the (run ex_started (new_queue ''story_generation'' 2))) = [0] \<and>
   maxAttempts (objs (the (run (ex_started @ ex_null) (new_queue ''story_generation'' 2))) 0) = 3 \<and>
   status (objs (the (run (ex_started @ ex_null) (new_queue ''story_generation'' 2))) 0) = ''processing'' \<and>
   attempts (objs (the (run (ex_started @ ex_null) (new_queue ''story_generation'' 2))) 0) = 1 \<and>
   0 \<in> set (processing (the (run (ex_started @ ex_null) (new_queue ''story_generation'' 2)))) \<and>
   0 \<notin> set (failed (the (run (ex_started @ ex_null) (new_queue ''story_generation'' 2))))"
proof -
  let ?r = "run ex_started (new_queue ''story_generation'' 2)"
  have ne: "?r \<noteq> None" by (simp add: ex_started_def eval_defs)
  then obtain q where q: "?r = Some q" by auto
  have v: "awaiting (the ?r) = [0]" "attempts (objs (the ?r) 0) = 0"
    "maxAttempts (objs (the ?r) 0) = 3"
    by (simp_all add: ex_started_def eval_defs)
  have a: "0 \<in> set (awaiting q)" using v(1) q by simp
  have ne2: "run (RejectedNullish 0 # tl ex_null) (the ?r) \<noteq> None"
    by (simp add: ex_started_def ex_null_def eval_defs)
  then obtain q' where q': "run (RejectedNullish 0 # tl ex_null) q = Some q'" using q by auto
  have e: "ex_null = RejectedNullish 0 # tl ex_null" by (simp add: ex_null_def)
  have w: "run (ex_started @ ex_null) (new_queue ''story_generation'' 2) = Some q'"
    using run_extend[OF q q'] e by simp
  have d: "documented_run (ex_started @ ex_null) (new_queue ''story_generation'' 2)"
    by (simp add: ex_started_def ex_null_def eval_defs used_ids_def documented_options_def)
  then have d': "documented_run (ex_started @ RejectedNullish 0 # tl ex_null)
                   (new_queue ''story_generation'' 2)"
    using e by simp
  have m: "maxAttempts (objs (the (run (ex_started @ ex_null) (new_queue ''story_generation'' 2))) 0) = 3"
    by (simp add: ex_started_def ex_null_def eval_defs)
  from null_rejection_strands_job[OF q a q'] d' v q
  have "status (objs q' 0) = ''processing'' \<and> attempts (objs q' 0) = 1 \<and>
        0 \<in> set (processing q') \<and> 0 \<notin> set (failed q')"
    by simp
  then show ?thesis using d v(1) m by (simp add: w)
qed
subsection \<open>C7: cleanup\<close>

text \<open>
  C7 (amended). Take a state a queue reaches and a call \<open>cleanup(maxAge)\<close> at the clock
  value \<open>now\<close> whose cutoff \<open>now - maxAge\<close> is a valid date. The call keeps exactly the
  completed jobs whose \<open>completedAt\<close> is not before the cutoff and the failed jobs whose
  \<open>failedAt\<close> is not before it (these dates are always set), returns the number of jobs it
  removed, and leaves the waiting array, \<open>processing\<close>, the timers, the suspended handlers
  and every job object as they were. \<open>cleanup\<close> reads the clock at each call: a second
  call removes the jobs that are older than its own cutoff, and it removes nothing and
  returns 0 when its cutoff is not later than the cutoff of the first call.
\<close>

theorem cleanup_sweep:
  assumes "run es (new_queue n c) = Some q"
    and "- 8640000000000000 \<le> now - maxAge" and "now - maxAge \<le> 8640000000000000"
    and "cleanup maxAge now q = (k, q')"
  shows "(\<forall>r \<in> set (completed q). completedAt (objs q r) \<noteq> None) \<and>
         (\<forall>r \<in> set (failed q). failedAt (objs q r) \<noteq> None) \<and>
         completed q' = filter (\<lambda>r. \<not> the (completedAt (objs q r)) < now - maxAge) (completed q) \<and>
         failed q' = filter (\<lambda>r. \<not> the (failedAt (objs q r)) < now - maxAge) (failed q) \<and>
         k = (length (completed q) - length (completed q')) + (length (failed q) - length (failed q')) \<and>
         jobs q' = jobs q \<and> processing q' = processing q \<and> objs q' = objs q \<and>
         timers q' = timers q \<and> awaiting q' = awaiting q \<and> unhandled q' = unhandled q \<and>
         (\<forall>maxAge2 now2.
            - 8640000000000000 \<le> now2 - maxAge2 \<and> now2 - maxAge2 \<le> 8640000000000000 \<longrightarrow>
            fst (cleanup maxAge2 now2 q') =
              length (filter (\<lambda>r. the (completedAt (objs q r)) < now2 - maxAge2) (completed q')) +
              length (filter (\<lambda>r. the (failedAt (objs q r)) < now2 - maxAge2) (failed q')) \<and>
            (now2 - maxAge2 \<le> now - maxAge \<longrightarrow> cleanup maxAge2 now2 q' = (0, q')))"
proof -
  have "marks_ok q" using reach_inv[OF run_reach[OF assms(1)]] by (simp add: inv_def)
  then have c: "\<forall>r \<in> set (completed q). completedAt (objs q r) \<noteq> None"
    and f: "\<forall>r \<in> set (failed q). failedAt (objs q r) \<noteq> None"
    by (auto simp: marks_ok_def)
  let ?cut = "now - maxAge"
  have nd: "new_Date ?cut = Some ?cut" using assms(2,3) by (simp add: new_Date_def)
  have q': "q' = q\<lparr> completed := filter (\<lambda>r. \<not> the (completedAt (objs q r)) < ?cut) (completed q),
                    failed := filter (\<lambda>r. \<not> the (failedAt (objs q r)) < ?cut) (failed q) \<rparr>"
    using assms(4) filter_date(1)[OF c, of ?cut] filter_date(1)[OF f, of ?cut]
    by (simp add: cleanup_def Let_def nd)
  have k: "k = length (filter (\<lambda>r. the (completedAt (objs q r)) < ?cut) (completed q)) +
               length (filter (\<lambda>r. the (failedAt (objs q r)) < ?cut) (failed q))"
    using assms(4) filter_date(2)[OF c, of ?cut] filter_date(2)[OF f, of ?cut]
    by (simp add: cleanup_def Let_def nd)
  have k': "k = (length (completed q) - length (completed q')) + (length (failed q) - length (failed q'))"
    unfolding k q'
    using sum_length_filter_compl[of "\<lambda>r. the (completedAt (objs q r)) < ?cut" "completed q"]
      sum_length_filter_compl[of "\<lambda>r. the (failedAt (objs q r)) < ?cut" "failed q"]
    by simp
  have c': "\<forall>r \<in> set (completed q'). completedAt (objs q' r) \<noteq> None"
    and f': "\<forall>r \<in> set (failed q'). failedAt (objs q' r) \<noteq> None"
    using c f by (auto simp: q')
  have o: "objs q' = objs q" by (simp add: q')
  have again: "fst (cleanup maxAge2 now2 q') =
              length (filter (\<lambda>r. the (completedAt (objs q r)) < now2 - maxAge2) (completed q')) +
              length (filter (\<lambda>r. the (failedAt (objs q r)) < now2 - maxAge2) (failed q')) \<and>
            (now2 - maxAge2 \<le> now - maxAge \<longrightarrow> cleanup maxAge2 now2 q' = (0, q'))"
    if v: "- 8640000000000000 \<le> now2 - maxAge2 \<and> now2 - maxAge2 \<le> 8640000000000000"
    for maxAge2 now2
  proof -
    let ?cut2 = "now2 - maxAge2"
    have nd2: "new_Date ?cut2 = Some ?cut2" using v by (simp add: new_Date_def)
    have 1: "fst (cleanup maxAge2 now2 q') =
              length (filter (\<lambda>r. the (completedAt (objs q r)) < ?cut2) (completed q')) +
              length (filter (\<lambda>r. the (failedAt (objs q r)) < ?cut2) (failed q'))"
      using filter_date(2)[OF c', of ?cut2] filter_date(2)[OF f', of ?cut2]
      by (simp add: cleanup_def Let_def nd2 o)
    have 2: "cleanup maxAge2 now2 q' = (0, q')" if le: "?cut2 \<le> ?cut"
    proof -
      have a: "filter (\<lambda>r. \<not> the (completedAt (objs q r)) < ?cut2) (completed q') = completed q'"
        "filter (\<lambda>r. \<not> the (failedAt (objs q r)) < ?cut2) (failed q') = failed q'"
        "filter (\<lambda>r. the (completedAt (objs q r)) < ?cut2) (completed q') = []"
        "filter (\<lambda>r. the (failedAt (objs q r)) < ?cut2) (failed q') = []"
      proof -
        have m: "\<forall>r \<in> set (completed q'). \<not> the (completedAt (objs q r)) < ?cut2"
          "\<forall>r \<in> set (failed q'). \<not> the (failedAt (objs q r)) < ?cut2"
          using le by (auto simp: q')
        show "filter (\<lambda>r. \<not> the (completedAt (objs q r)) < ?cut2) (completed q') = completed q'"
          "filter (\<lambda>r. \<not> the (failedAt (objs q r)) < ?cut2) (failed q') = failed q'"
          "filter (\<lambda>r. the (completedAt (objs q r)) < ?cut2) (completed q') = []"
          "filter (\<lambda>r. the (failedAt (objs q r)) < ?cut2) (failed q') = []"
          using m by (simp_all add: filter_id_conv filter_empty_conv)
      qed
      show ?thesis
        using filter_date[OF c', of ?cut2] filter_date[OF f', of ?cut2] a
        by (simp add: cleanup_def Let_def nd2 o)
    qed
    show ?thesis using 1 2 by blast
  qed
  show ?thesis using c f k' again by (simp add: q')
qed

theorem cleanup_sweep_witness:
  "run ex_done (new_queue ''story_generation'' 2) \<noteq> None \<and>
   fst (cleanup 50 170 (the (run ex_done (new_queue ''story_generation'' 2)))) = 1 \<and>
   completed (snd (cleanup 50 170 (the (run ex_done (new_queue ''story_generation'' 2))))) = [] \<and>
   failed (snd (cleanup 50 170 (the (run ex_done (new_queue ''story_generation'' 2))))) = [1] \<and>
   fst (cleanup 50 170 (snd (cleanup 50 170 (the (run ex_done (new_queue ''story_generation'' 2)))))) = 0 \<and>
   fst (cleanup 50 201 (snd (cleanup 50 170 (the (run ex_done (new_queue ''story_generation'' 2)))))) = 1"
proof -
  let ?r = "run ex_done (new_queue ''story_generation'' 2)"
  have ne: "?r \<noteq> None" by (simp add: ex_done_def eval_defs)
  then obtain q where q: "?r = Some q" by auto
  obtain k q' where c: "cleanup 50 170 q = (k, q')" by (cases "cleanup 50 170 q")
  have v: "completed (the ?r) = [0]" "failed (the ?r) = [1]"
    "completedAt (objs (the ?r) 0) = Some 100" "failedAt (objs (the ?r) 1) = Some 150"
    by (simp_all add: ex_done_def eval_defs)
  have b: "- 8640000000000000 \<le> (170::int) - 50" "(170::int) - 50 \<le> 8640000000000000" by simp_all
  note t = cleanup_sweep[OF q b c]
  have 1: "k = 1 \<and> completed q' = [] \<and> failed q' = [1]" using t v q by simp
  have 2: "fst (cleanup 50 170 q') = 0" using t by simp
  have "fst (cleanup 50 201 q') =
          length (filter (\<lambda>r. the (completedAt (objs q r)) < 201 - 50) (completed q')) +
          length (filter (\<lambda>r. the (failedAt (objs q r)) < 201 - 50) (failed q'))"
    using t by simp
  then have 3: "fst (cleanup 50 201 q') = 1" using 1 v q by simp
  show ?thesis using 1 2 3 ne by (simp add: q c)
qed

text \<open>
  The claim as stated fails twice. The second of two calls in succession does remove a
  job when the clock has moved on: \<open>cleanup(50)\<close> at 150 removes nothing, and \<open>cleanup(50)\<close>
  one millisecond later removes the job completed at 100. And a \<open>maxAge\<close> of 9e15 ms
  makes the cutoff an \<open>Invalid Date\<close>: no job is older than it and none is kept, so the
  call returns 0 and empties \<open>completed\<close> and \<open>failed\<close>.
\<close>

theorem cleanup_sweep_counterexample:
  "completed (the (run ex_done (new_queue ''story_generation'' 2))) = [0] \<and>
   failed (the (run ex_done (new_queue ''story_generation'' 2))) = [1] \<and>
   fst (cleanup 50 150 (the (run ex_done (new_queue ''story_generation'' 2)))) = 0 \<and>
   fst (cleanup 50 151 (snd (cleanup 50 150 (the (run ex_done (new_queue ''story_generation'' 2)))))) = 1 \<and>
   completed (snd (cleanup 50 151 (snd (cleanup 50 150
     (the (run ex_done (new_queue ''story_generation'' 2))))))) = [] \<and>
   fst (cleanup 9000000000000000 170 (the (run ex_done (new_queue ''story_generation'' 2)))) = 0 \<and>
   completed (snd (cleanup 9000000000000000 170
     (the (run ex_done (new_queue ''story_generation'' 2))))) = [] \<and>
   failed (snd (cleanup 9000000000000000 170
     (the (run ex_done (new_queue ''story_generation'' 2))))) = []"
  by (simp add: ex_done_def eval_defs)
subsection \<open>C8: a handler's error stays with its job\<close>



subsection \<open>C9: the options spread over the defaults\<close>




subsection \<open>C10: the job that \<open>add\<close> returns\<close>

text \<open>
  C10 (amended). \<open>add\<close> runs the scheduler before it returns. When the queue is idle (no
  waiting job, a free slot), the job's type has a handler and its delay is not positive,
  the returned job already has status \<open>processing\<close> with \<open>startedAt\<close> set. In every case
  (with no \<open>status\<close> key in \<open>options\<close>) the returned job's status is \<open>waiting\<close>,
  \<open>processing\<close> or \<open>failed\<close>, never \<open>completed\<close>; it is \<open>failed\<close> only when no handler
  is registered for the job's type.
\<close>

theorem add_returned_status:
  assumes "add t d opts gid now q = (r, q')" and "opt_status opts = None"
  shows "r = nalloc q \<and>
         (status (objs q' r) = ''waiting'' \<or> status (objs q' r) = ''processing'' \<or>
          status (objs q' r) = ''failed'') \<and>
         (status (objs q' r) = ''failed'' \<longrightarrow> handlers q (job_type (objs q' r)) = None) \<and>
         (\<not> isProcessing q \<and> jobs q = [] \<and> length (processing q) < concurrency q \<and>
          handlers q (job_type (new_job gid t d opts now)) \<noteq> None \<and>
          delay (new_job gid t d opts now) \<le> 0 \<longrightarrow>
            status (objs q' r) = ''processing'' \<and> startedAt (objs q' r) = Some now \<and>
            r \<in> set (processing q'))"
proof -
  have r: "r = nalloc q" and q': "q' = startProcessing now (enqueue t d opts gid now q)"
    using assms(1) by (auto simp: add_def)
  have "sync_status (enqueue t d opts gid now q) r"
    using assms(2) r
    by (simp add: sync_status_def enqueue_def Let_def new_job_def spread_options_def
        job_defaults_def spread_key_def)
  then have s: "sync_status q' r" unfolding q' by (rule sync_status_startProcessing)
  have h: "handlers q' = handlers q"
    by (simp add: q' startProcessing_def loop_handlers enqueue_def Let_def)
  have i: "\<not> isProcessing q \<and> jobs q = [] \<and> length (processing q) < concurrency q \<and>
          handlers q (job_type (new_job gid t d opts now)) \<noteq> None \<and>
          delay (new_job gid t d opts now) \<le> 0 \<longrightarrow>
            status (objs q' r) = ''processing'' \<and> startedAt (objs q' r) = Some now \<and>
            r \<in> set (processing q')"
    using add_idle[of q gid t d opts now] assms(1) r by auto
  show ?thesis using r s h i by (auto simp: sync_status_def)
qed

theorem add_returned_status_witness:
  "fst (add ''generate_story'' ''s1'' no_options ''id1'' 10 storyQueue) = 0 \<and>
   status (objs (snd (add ''generate_story'' ''s1'' no_options ''id1'' 10 storyQueue)) 0) = ''processing'' \<and>
   startedAt (objs (snd (add ''generate_story'' ''s1'' no_options ''id1'' 10 storyQueue)) 0) = Some 10"
proof -
  obtain r q' where a: "add ''generate_story'' ''s1'' no_options ''id1'' 10 storyQueue = (r, q')"
    by (cases "add ''generate_story'' ''s1'' no_options ''id1'' 10 storyQueue")
  have o: "opt_status no_options = None" by (simp add: no_options_def)
  have p: "\<not> isProcessing storyQueue \<and> jobs storyQueue = [] \<and>
      length (processing storyQueue) < concurrency storyQueue \<and>
      handlers storyQueue (job_type (new_job ''id1'' ''generate_story'' ''s1'' no_options 10)) \<noteq> None \<and>
      delay (new_job ''id1'' ''generate_story'' ''s1'' no_options 10) \<le> 0"
    by (simp add: eval_defs)
  have n: "nalloc storyQueue = 0" by (simp add: eval_defs)
  from add_returned_status[OF a o] p n show ?thesis by (auto simp: a)
qed

text \<open>
  The claim as stated fails: \<open>storyQueue\<close> has no handler for \<open>generate_image\<close>, so a job
  of that type added with \<open>{maxAttempts: 1}\<close> is started, fails and is moved to \<open>failed\<close>
  before \<open>add\<close> returns.
\<close>

theorem add_returned_status_counterexample:
  "status (objs (snd (add ''generate_image'' ''p1'' (no_options\<lparr> opt_maxAttempts := Some 1 \<rparr>) ''id1'' 10 storyQueue))
                (fst (add ''generate_image'' ''p1'' (no_options\<lparr> opt_maxAttempts := Some 1 \<rparr>) ''id1'' 10 storyQueue)))
     = ''failed''"
  by (simp add: eval_defs)

end
